theory Spec2Isabelle
  imports Main "HOL-Library.Word" "HOL-Library.Char_ord" "HOL-Library.List_Lexorder"
    "HOL-Library.Code_Target_Nat"
begin

section \<open>Strings, character sets and the library routines the package calls\<close>

text \<open>
  Go strings are byte sequences: \<^typ>\<open>string\<close> (a list of 8-bit characters). Strings
  compare bytewise, lexicographically, a proper prefix being less: the order of
  \<open>List_Lexorder\<close> over \<open>Char_ord\<close>.
\<close>

definition numbers :: string where
  "numbers = ''0123456789''"

definition alphas :: string where
  "alphas = ''abcdefghijklmnopqrstuvwxyzABCDEFGHIJKLMNOPQRSTUVWXYZ-''"

definition alphanum :: string where
  "alphanum = alphas @ numbers"

text \<open>
  \<open>containsOnly\<close>: no rune of \<open>s\<close> lies outside \<open>set\<close>. Every member of the sets used
  is ASCII, and a byte of a multi-byte or invalid encoding decodes to a rune outside
  them, so the test on bytes is the test on runes.
\<close>

definition containsOnly :: "string \<Rightarrow> string \<Rightarrow> bool" where
  "containsOnly s cs = list_all (\<lambda>r. r \<in> set cs) s"

definition hasLeadingZeroes :: "string \<Rightarrow> bool" where
  "hasLeadingZeroes s = (length s > 1 \<and> hd s = CHR ''0'')"

datatype error =
    EmptyInput                \<comment> \<open>"Version string empty"\<close>
  | GrammarMismatch           \<comment> \<open>"Invalid version: '%s'"\<close>
  | TolerantGrammarMismatch   \<comment> \<open>"Invalid tolerant version: '%s'"\<close>
  | ShortFormWithSuffix       \<comment> \<open>"Short version cannot contain PreRelease/Build meta data"\<close>
  | ErrSyntax                 \<comment> \<open>strconv.ErrSyntax\<close>
  | ErrRange                  \<comment> \<open>strconv.ErrRange: the spec's NumericOverflow\<close>
  | EmptyIdentifier           \<comment> \<open>"Prerelease is empty"\<close>
  | LeadingZero               \<comment> \<open>"Numeric PreRelease version must not contain leading zeroes"\<close>
  | InvalidCharacter          \<comment> \<open>"Invalid character(s) found in prerelease"\<close>
  | EmptyBuildSegment         \<comment> \<open>"Build meta data is empty"\<close>
  | InvalidBuildSegment       \<comment> \<open>"Invalid character(s) found in build meta data"\<close>

subsection \<open>strconv\<close>

definition isdigit :: "char \<Rightarrow> bool" where
  "isdigit c = (CHR ''0'' \<le> c \<and> c \<le> CHR ''9'')"

definition digit_val :: "char \<Rightarrow> nat" where
  "digit_val c = of_char c - 48"

definition maxUint64 :: nat where
  "maxUint64 = 2 ^ 64 - 1"

text \<open>
  \<open>strconv.ParseUint(s, 10, 64)\<close>: the digits are accumulated from the left; a byte that
  is no digit is a syntax error, a value beyond \<open>2^64 - 1\<close> a range error, whichever the
  scan meets first.
\<close>

fun parseUint_loop :: "string \<Rightarrow> nat \<Rightarrow> error + nat" where
  "parseUint_loop [] n = Inr n"
| "parseUint_loop (c # cs) n =
     (if \<not> isdigit c then Inl ErrSyntax
      else if n \<ge> maxUint64 div 10 + 1 then Inl ErrRange
      else let n1 = n * 10 + digit_val c
           in if n1 > maxUint64 then Inl ErrRange else parseUint_loop cs n1)"

definition ParseUint :: "string \<Rightarrow> error + 64 word" where
  "ParseUint s =
     (if s = [] then Inl ErrSyntax
      else case parseUint_loop s 0 of Inl e \<Rightarrow> Inl e | Inr n \<Rightarrow> Inr (word_of_nat n))"

text \<open>
  \<open>strconv.ParseInt(s, 10, 64)\<close>: an optional sign, then \<open>ParseUint\<close>; the magnitude
  must fit the signed range. The result is the two's complement word.
\<close>

definition ParseInt :: "string \<Rightarrow> error + 64 word" where
  "ParseInt s =
     (if s = [] then Inl ErrSyntax
      else let neg = (hd s = CHR ''-'');
               s1 = (if hd s = CHR ''+'' \<or> hd s = CHR ''-'' then tl s else s)
           in case ParseUint s1 of
                Inl e \<Rightarrow> Inl e
              | Inr un \<Rightarrow>
                  if \<not> neg \<and> unat un \<ge> 2 ^ 63 then Inl ErrRange
                  else if neg \<and> unat un > 2 ^ 63 then Inl ErrRange
                  else Inr (if neg then - un else un))"

definition digit_char :: "nat \<Rightarrow> char" where
  "digit_char d = char_of (48 + d)"

text \<open>\<open>strconv.FormatUint(n, 10)\<close>, which \<open>AppendUint\<close> appends.\<close>

fun FormatUint :: "nat \<Rightarrow> string" where
  "FormatUint n = (if n < 10 then [digit_char n] else FormatUint (n div 10) @ [digit_char (n mod 10)])"

declare FormatUint.simps [simp del]

text \<open>\<open>strconv.FormatInt(i, 10)\<close>, which \<open>AppendInt\<close> appends.\<close>

definition FormatInt :: "int \<Rightarrow> string" where
  "FormatInt i = (if i < 0 then CHR ''-'' # FormatUint (nat (- i)) else FormatUint (nat i))"

subsection \<open>strings\<close>

text \<open>\<open>strings.TrimLeft(s, cutset)\<close>\<close>

definition TrimLeft :: "string \<Rightarrow> string \<Rightarrow> string" where
  "TrimLeft s cutset = dropWhile (\<lambda>c. c \<in> set cutset) s"

text \<open>
  \<open>strings.Split(s, sep)\<close> for a one-byte separator: the pieces between the separators,
  one piece (the whole string) when there is none, also for the empty string.
\<close>

fun Split :: "string \<Rightarrow> char \<Rightarrow> string list" where
  "Split [] sep = [[]]"
| "Split (c # cs) sep =
     (if c = sep then [] # Split cs sep
      else case Split cs sep of
             [] \<Rightarrow> [[c]]
           | x # xs \<Rightarrow> (c # x) # xs)"

section \<open>Regular expressions\<close>

text \<open>
  The two patterns are compiled by Go's \<open>regexp\<close>, whose matches are those a
  backtracking search finds first (leftmost-first): an alternation prefers its left
  branch, and \<open>?\<close>, \<open>*\<close> and \<open>+\<close> are greedy. The syntax tree below has what the two
  patterns use. A named group \<open>(?P<n>r)\<close> is \<open>Grp n r\<close>; a non-capturing group is the
  tree itself. \<open>$\<close> (no flag \<open>m\<close>) holds at the end of the text only: \<open>Eot\<close>.
\<close>

datatype item = Ch char | Rg char char

datatype regex =
    CSet "item list"       \<comment> \<open>a character class \<open>[...]\<close>\<close>
  | Lit char
  | Seq regex regex
  | Alt regex regex
  | Opt regex
  | Star regex
  | Plus regex
  | Grp string regex
  | Eot

fun in_item :: "char \<Rightarrow> item \<Rightarrow> bool" where
  "in_item c (Ch d) = (c = d)"
| "in_item c (Rg lo hi) = (lo \<le> c \<and> c \<le> hi)"

definition in_class :: "item list \<Rightarrow> char \<Rightarrow> bool" where
  "in_class its c = list_ex (in_item c) its"

text \<open>
  A state of the search is the text of each group so far and the rest of the input.
  A group that took no part in the match has the empty text, as in the result of
  \<open>FindStringSubmatch\<close>.
\<close>

type_synonym captures = "string \<Rightarrow> string"
type_synonym mstate = "captures \<times> string"

text \<open>
  \<open>star f st\<close>: the states after zero or more rounds of \<open>f\<close>, more rounds first. A round
  that consumes nothing is not repeated.
\<close>

function star :: "(mstate \<Rightarrow> mstate list) \<Rightarrow> mstate \<Rightarrow> mstate list" where
  "star f st =
     concat (map (star f) (filter (\<lambda>st'. length (snd st') < length (snd st)) (f st))) @ [st]"
  by pat_completeness auto
termination
  by (relation "measure (\<lambda>(f, st). length (snd st))") auto

declare star.simps [simp del]

text \<open>
  \<open>rx r st\<close>: every state in which a match of \<open>r\<close> from the state \<open>st\<close> can end, in the
  order in which the backtracking search tries them.
\<close>

fun rx :: "regex \<Rightarrow> mstate \<Rightarrow> mstate list" where
  "rx (CSet its) st =
     (case snd st of [] \<Rightarrow> [] | c # cs \<Rightarrow> if in_class its c then [(fst st, cs)] else [])"
| "rx (Lit d) st =
     (case snd st of [] \<Rightarrow> [] | c # cs \<Rightarrow> if c = d then [(fst st, cs)] else [])"
| "rx (Seq a b) st = concat (map (rx b) (rx a st))"
| "rx (Alt a b) st = rx a st @ rx b st"
| "rx (Opt a) st = rx a st @ [st]"
| "rx (Star a) st = star (rx a) st"
| "rx (Plus a) st = concat (map (star (rx a)) (rx a st))"
| "rx (Grp n a) st =
     map (\<lambda>st'. ((fst st')(n := take (length (snd st) - length (snd st')) (snd st)), snd st'))
       (rx a st)"
| "rx Eot st = (if snd st = [] then [st] else [])"

text \<open>
  \<open>FindStringSubmatch\<close> for a pattern that starts with \<open>^\<close>: the search starts at the
  first byte only, and its first result is the match. \<open>MatchString\<close> is whether there
  is one.
\<close>

definition FindStringSubmatch :: "regex \<Rightarrow> string \<Rightarrow> captures option" where
  "FindStringSubmatch r s =
     (case rx r (\<lambda>n. [], s) of [] \<Rightarrow> None | st # _ \<Rightarrow> Some (fst st))"

definition MatchString :: "regex \<Rightarrow> string \<Rightarrow> bool" where
  "MatchString r s = (FindStringSubmatch r s \<noteq> None)"

abbreviation cls_d :: regex where           \<comment> \<open>\<open>\d\<close>\<close>
  "cls_d \<equiv> CSet [Rg (CHR ''0'') (CHR ''9'')]"

abbreviation cls_s :: regex where           \<comment> \<open>\<open>\s\<close>: tab, newline, form feed, return, space\<close>
  "cls_s \<equiv> CSet [Ch (CHR 0x09), Ch (CHR 0x0A), Ch (CHR 0x0C), Ch (CHR 0x0D), Ch (CHR '' '')]"

abbreviation cls_19 :: regex where          \<comment> \<open>\<open>[1-9]\<close>\<close>
  "cls_19 \<equiv> CSet [Rg (CHR ''1'') (CHR ''9'')]"

abbreviation cls_al :: regex where          \<comment> \<open>\<open>[a-zA-Z-]\<close>\<close>
  "cls_al \<equiv> CSet [Rg (CHR ''a'') (CHR ''z''), Rg (CHR ''A'') (CHR ''Z''), Ch (CHR ''-'')]"

abbreviation cls_an :: regex where          \<comment> \<open>\<open>[0-9a-zA-Z-]\<close>\<close>
  "cls_an \<equiv> CSet [Rg (CHR ''0'') (CHR ''9''), Rg (CHR ''a'') (CHR ''z''),
                   Rg (CHR ''A'') (CHR ''Z''), Ch (CHR ''-'')]"

text \<open>\<open>0|[1-9]\d*\<close>\<close>

definition re_num :: regex where
  "re_num = Alt (Lit (CHR ''0'')) (Seq cls_19 (Star cls_d))"

text \<open>\<open>0|[1-9]\d*|\d*[a-zA-Z-][0-9a-zA-Z-]*\<close>\<close>

definition re_pre_seg :: regex where
  "re_pre_seg =
     Alt (Lit (CHR ''0''))
       (Alt (Seq cls_19 (Star cls_d))
            (Seq (Star cls_d) (Seq cls_al (Star cls_an))))"

text \<open>\<open>\d+|\d*[a-zA-Z-][0-9a-zA-Z-]*\<close>\<close>

definition re_tol_seg :: regex where
  "re_tol_seg = Alt (Plus cls_d) (Seq (Star cls_d) (Seq cls_al (Star cls_an)))"

text \<open>\<open>(?:\+(?P<buildmetadata>[0-9a-zA-Z-]+(?:\.[0-9a-zA-Z-]+)*))?\<close>\<close>

definition re_build :: regex where
  "re_build =
     Opt (Seq (Lit (CHR ''+''))
            (Grp ''buildmetadata''
               (Seq (Plus cls_an) (Star (Seq (Lit (CHR ''.'')) (Plus cls_an))))))"

text \<open>\<open>(?:-(?P<prerelease>seg(?:\.seg)*))?\<close>\<close>

definition re_pre :: "regex \<Rightarrow> regex" where
  "re_pre seg =
     Opt (Seq (Lit (CHR ''-''))
            (Grp ''prerelease'' (Seq seg (Star (Seq (Lit (CHR ''.'')) seg)))))"

definition kongVersionRegexFormat :: regex where
  "kongVersionRegexFormat =
     Seq (Grp ''major'' re_num) (Seq (Lit (CHR ''.''))
    (Seq (Grp ''minor'' re_num) (Seq (Lit (CHR ''.''))
    (Seq (Grp ''patch'' re_num)
    (Seq (Opt (Seq (Lit (CHR ''.'')) (Grp ''revision'' re_num)))
    (Seq (re_pre re_pre_seg)
    (Seq re_build
     Eot)))))))"

definition kongTolerantVersionRegexFormat :: regex where
  "kongTolerantVersionRegexFormat =
     Seq (Opt (Alt (Lit (CHR ''v'')) (Star cls_s)))
    (Seq (Opt (Grp ''major'' (Plus cls_d)))
    (Seq (Opt (Lit (CHR ''.'')))
    (Seq (Opt (Grp ''minor'' (Plus cls_d)))
    (Seq (Opt (Lit (CHR ''.'')))
    (Seq (Opt (Grp ''patch'' (Plus cls_d)))
    (Seq (Opt (Seq (Lit (CHR ''.'')) (Grp ''revision'' (Plus cls_d))))
    (Seq (re_pre re_tol_seg)
    (Seq re_build
    (Seq (Star cls_s)
     Eot)))))))))"

section \<open>Versions\<close>

record PRVersion =
  VersionStr :: string
  VersionNum :: "64 word"
  IsNum :: bool

text \<open>
  \<open>Revision\<close> is an \<open>int64\<close>: the word read by \<open>sint\<close>; \<open>-1\<close> is the absent revision.
\<close>

record Version =
  Major :: "64 word"
  Minor :: "64 word"
  Patch :: "64 word"
  Revision :: "64 word"
  Pre :: "PRVersion list"
  Build :: "string list"

definition PRVersion_String :: "PRVersion \<Rightarrow> string" where
  "PRVersion_String v = (if IsNum v then FormatUint (unat (VersionNum v)) else VersionStr v)"

definition Version_String :: "Version \<Rightarrow> string" where
  "Version_String v =
     FormatUint (unat (Major v)) @ ''.'' @ FormatUint (unat (Minor v)) @ ''.''
       @ FormatUint (unat (Patch v))
       @ (if sint (Revision v) \<ge> 0 then ''.'' @ FormatInt (sint (Revision v)) else [])
       @ (if length (Pre v) > 0
          then ''-'' @ PRVersion_String (hd (Pre v))
                 @ concat (map (\<lambda>pre. ''.'' @ PRVersion_String pre) (tl (Pre v)))
          else [])
       @ (if length (Build v) > 0
          then ''+'' @ hd (Build v) @ concat (map (\<lambda>build. ''.'' @ build) (tl (Build v)))
          else [])"

definition PRVersion_Compare :: "PRVersion \<Rightarrow> PRVersion \<Rightarrow> int" where
  "PRVersion_Compare v o' =
     (if IsNum v \<and> \<not> IsNum o' then - 1
      else if \<not> IsNum v \<and> IsNum o' then 1
      else if IsNum v \<and> IsNum o' then
        (if VersionNum v = VersionNum o' then 0
         else if VersionNum v > VersionNum o' then 1
         else - 1)
      else
        (if VersionStr v = VersionStr o' then 0
         else if VersionStr v > VersionStr o' then 1
         else - 1))"

text \<open>
  The loop of \<open>Version.Compare\<close> over the common indices of the two pre-release lists,
  from index \<open>i\<close>, with the three-way test that follows it.
\<close>

function pre_loop :: "PRVersion list \<Rightarrow> PRVersion list \<Rightarrow> nat \<Rightarrow> int" where
  "pre_loop vp op i =
     (if i < length vp \<and> i < length op then
        (let comp = PRVersion_Compare (vp ! i) (op ! i)
         in if comp = 0 then pre_loop vp op (i + 1)
            else if comp = 1 then 1
            else - 1)
      else if i = length vp \<and> i = length op then 0
      else if i = length vp \<and> i < length op then - 1
      else 1)"
  by pat_completeness auto
termination
  by (relation "measure (\<lambda>(vp, op, i). length vp - i)") auto

declare pre_loop.simps [simp del]

text \<open>
  The last part of \<open>Version.Compare\<close>, reached when major, minor, patch and revision
  have not decided: the quick tests on empty pre-release lists, then the loop.
\<close>

definition compare_prerelease :: "PRVersion list \<Rightarrow> PRVersion list \<Rightarrow> int" where
  "compare_prerelease vp op =
     (if length vp = 0 \<and> length op = 0 then 0
      else if length vp = 0 \<and> length op > 0 then 1
      else if length vp > 0 \<and> length op = 0 then - 1
      else pre_loop vp op 0)"

definition Version_Compare :: "Version \<Rightarrow> Version \<Rightarrow> int" where
  "Version_Compare v o' =
     (if Major v \<noteq> Major o' then (if Major v > Major o' then 1 else - 1)
      else if Minor v \<noteq> Minor o' then (if Minor v > Minor o' then 1 else - 1)
      else if Patch v \<noteq> Patch o' then (if Patch v > Patch o' then 1 else - 1)
      else if Revision v \<noteq> Revision o' \<and> Revision v \<noteq> - 1 \<and> Revision o' \<noteq> - 1 then
        (if sint (Revision v) > sint (Revision o') then 1 else - 1)
      else compare_prerelease (Pre v) (Pre o'))"

definition Equals :: "Version \<Rightarrow> Version \<Rightarrow> bool" where
  "Equals v o' = (Version_Compare v o' = 0)"

text \<open>
  The mutators take the version and return the error (always \<open>nil\<close>: \<open>None\<close>) with the
  version as the call leaves it. \<open>++\<close> on a \<open>uint64\<close> wraps around.
\<close>

definition IncrementMinor :: "Version \<Rightarrow> error option \<times> Version" where
  "IncrementMinor v =
     (let v1 = v\<lparr>Minor := Minor v + 1\<rparr>;
          v2 = v1\<lparr>Patch := 0\<rparr>;
          v3 = (if sint (Revision v2) \<ge> 0 then v2\<lparr>Revision := 0\<rparr> else v2)
      in (None, v3))"

text \<open>
  \<open>Validate\<close>: the first violation among the pre-release identifiers, then among the
  build segments; \<open>None\<close> is \<open>nil\<close>.
\<close>

fun validate_pre :: "PRVersion list \<Rightarrow> error option" where
  "validate_pre [] = None"
| "validate_pre (pre # rest) =
     (if \<not> IsNum pre then
        (if length (VersionStr pre) = 0 then Some EmptyIdentifier
         else if \<not> containsOnly (VersionStr pre) alphanum then Some InvalidCharacter
         else validate_pre rest)
      else validate_pre rest)"

fun validate_build :: "string list \<Rightarrow> error option" where
  "validate_build [] = None"
| "validate_build (build # rest) =
     (if length build = 0 then Some EmptyBuildSegment
      else if \<not> containsOnly build alphanum then Some InvalidBuildSegment
      else validate_build rest)"

definition Validate :: "Version \<Rightarrow> error option" where
  "Validate v = (case validate_pre (Pre v) of Some e \<Rightarrow> Some e | None \<Rightarrow> validate_build (Build v))"

section \<open>Parsing\<close>

definition NewPRVersion :: "string \<Rightarrow> error + PRVersion" where
  "NewPRVersion s =
     (if length s = 0 then Inl EmptyIdentifier
      else if containsOnly s numbers then
        (if hasLeadingZeroes s then Inl LeadingZero
         else case ParseUint s of
                Inl e \<Rightarrow> Inl e
              | Inr num \<Rightarrow> Inr \<lparr>VersionStr = [], VersionNum = num, IsNum = True\<rparr>)
      else if containsOnly s alphanum then
        Inr \<lparr>VersionStr = s, VersionNum = 0, IsNum = False\<rparr>
      else Inl InvalidCharacter)"

text \<open>The two loops of \<open>Parse\<close>, each stopping at the first error.\<close>

fun parse_prerelease :: "string list \<Rightarrow> error + PRVersion list" where
  "parse_prerelease [] = Inr []"
| "parse_prerelease (prstr # rest) =
     (case NewPRVersion prstr of
        Inl e \<Rightarrow> Inl e
      | Inr parsedPR \<Rightarrow>
          (case parse_prerelease rest of Inl e \<Rightarrow> Inl e | Inr prs \<Rightarrow> Inr (parsedPR # prs)))"

fun parse_build :: "string list \<Rightarrow> error + string list" where
  "parse_build [] = Inr []"
| "parse_build (str # rest) =
     (if length str = 0 then Inl EmptyBuildSegment
      else if \<not> containsOnly str alphanum then Inl InvalidBuildSegment
      else case parse_build rest of Inl e \<Rightarrow> Inl e | Inr bs \<Rightarrow> Inr (str # bs))"

definition Parse :: "string \<Rightarrow> error + Version" where
  "Parse s =
     (if length s = 0 then Inl EmptyInput
      else case FindStringSubmatch kongVersionRegexFormat s of
        None \<Rightarrow> Inl GrammarMismatch
      | Some parts \<Rightarrow>
         (case ParseUint (parts ''major'') of Inl e \<Rightarrow> Inl e | Inr major \<Rightarrow>
         (case ParseUint (parts ''minor'') of Inl e \<Rightarrow> Inl e | Inr minor \<Rightarrow>
         (case ParseUint (parts ''patch'') of Inl e \<Rightarrow> Inl e | Inr patch \<Rightarrow>
         (let revisionStr = parts ''revision'';
              prereleaseStr = parts ''prerelease'';
              buildStr = parts ''buildmetadata''
          in (case (if length revisionStr > 0 then ParseInt revisionStr else Inr (- 1)) of
               Inl e \<Rightarrow> Inl e
             | Inr revision \<Rightarrow>
         (let build = (if length buildStr > 0 then Split buildStr (CHR ''.'') else []);
              prerelease = (if length prereleaseStr > 0 then Split prereleaseStr (CHR ''.'') else [])
          in (case parse_prerelease prerelease of Inl e \<Rightarrow> Inl e | Inr pre \<Rightarrow>
             (case parse_build build of Inl e \<Rightarrow> Inl e | Inr bld \<Rightarrow>
               Inr \<lparr>Major = major, Minor = minor, Patch = patch, Revision = revision,
                    Pre = pre, Build = bld\<rparr>)))))))))"

text \<open>
  The leading zeroes of a numeric field of more than one byte are trimmed; a field of
  zeroes becomes \<open>"0"\<close>.
\<close>

definition trim_zeroes :: "string \<Rightarrow> string" where
  "trim_zeroes str =
     (if length str > 1 then
        (let t = TrimLeft str ''0'' in if length t = 0 then ''0'' else t)
      else str)"

definition ParseTolerant :: "string \<Rightarrow> error + Version" where
  "ParseTolerant s =
     (case FindStringSubmatch kongTolerantVersionRegexFormat s of
        None \<Rightarrow> Inl TolerantGrammarMismatch
      | Some parts \<Rightarrow>
          let majorStr = trim_zeroes (parts ''major'');
              minorStr = trim_zeroes (parts ''minor'');
              patchStr = trim_zeroes (parts ''patch'');
              revisionStr = trim_zeroes (parts ''revision'');
              prereleaseStr = parts ''prerelease'';
              buildStr = parts ''buildmetadata''
          in if length patchStr = 0 \<or> length minorStr = 0 \<or> length majorStr = 0 then
               (if length prereleaseStr > 0 \<or> length buildStr > 0 then Inl ShortFormWithSuffix
                else
                  let patchStr = (if length patchStr = 0 then ''0'' else patchStr);
                      minorStr = (if length minorStr = 0 then ''0'' else minorStr);
                      majorStr = (if length majorStr = 0 then ''0'' else majorStr);
                      s1 = majorStr @ ''.'' @ minorStr @ ''.'' @ patchStr;
                      s2 = (if length revisionStr > 0 then s1 @ ''.'' @ revisionStr else s1)
                  in Parse s2)
             else
               let s1 = majorStr @ ''.'' @ minorStr @ ''.'' @ patchStr;
                   s2 = (if length revisionStr > 0 then s1 @ ''.'' @ revisionStr else s1);
                   s3 = (if length prereleaseStr > 0 then s2 @ ''-'' @ prereleaseStr else s2);
                   s4 = (if length buildStr > 0 then s3 @ ''+'' @ buildStr else s3)
               in Parse s4)"

section \<open>The ordering: auxiliary notions\<close>

definition tri_trans :: "int \<Rightarrow> int \<Rightarrow> int \<Rightarrow> bool" where
  "tri_trans xy yz xz = (xy \<le> 0 \<and> yz \<le> 0 \<longrightarrow> xz \<le> 0 \<and> (xz = 0 \<longrightarrow> xy = 0 \<and> yz = 0))"

definition lex2 :: "int \<Rightarrow> int \<Rightarrow> int" where
  "lex2 a b = (if a \<noteq> 0 then a else b)"

definition cmp_word :: "64 word \<Rightarrow> 64 word \<Rightarrow> int" where
  "cmp_word x y = (if x \<noteq> y then (if x > y then 1 else - 1) else 0)"

definition cmp_rev :: "64 word \<Rightarrow> 64 word \<Rightarrow> int" where
  "cmp_rev x y = (if x \<noteq> y \<and> x \<noteq> - 1 \<and> y \<noteq> - 1 then (if sint x > sint y then 1 else - 1) else 0)"

fun lex_cmp :: "PRVersion list \<Rightarrow> PRVersion list \<Rightarrow> int" where
  "lex_cmp [] [] = 0"
| "lex_cmp [] (y # ys) = - 1"
| "lex_cmp (x # xs) [] = 1"
| "lex_cmp (x # xs) (y # ys) =
     (if PRVersion_Compare x y = 0 then lex_cmp xs ys
      else if PRVersion_Compare x y = 1 then 1 else - 1)"

lemma tri_trans_lex2:
  "tri_trans a1 a2 a3 \<Longrightarrow> tri_trans b1 b2 b3 \<Longrightarrow> tri_trans (lex2 a1 b1) (lex2 a2 b2) (lex2 a3 b3)"
  unfolding tri_trans_def lex2_def by (smt (verit))

lemma PRVersion_Compare_range:
  "PRVersion_Compare x y = - 1 \<or> PRVersion_Compare x y = 0 \<or> PRVersion_Compare x y = 1"
  by (simp add: PRVersion_Compare_def)

lemma PRVersion_Compare_refl: "PRVersion_Compare x x = 0"
  by (simp add: PRVersion_Compare_def)

lemma PRVersion_Compare_flip: "PRVersion_Compare y x = - PRVersion_Compare x y"
  by (auto simp: PRVersion_Compare_def)

lemma PRVersion_Compare_tri:
  "tri_trans (PRVersion_Compare x y) (PRVersion_Compare y z) (PRVersion_Compare x z)"
  unfolding tri_trans_def PRVersion_Compare_def
  by (auto split: if_splits)

lemma pre_loop_lex_cmp:
  "i \<le> length vp \<Longrightarrow> i \<le> length op \<Longrightarrow> pre_loop vp op i = lex_cmp (drop i vp) (drop i op)"
proof (induction vp op i rule: pre_loop.induct)
  case (1 vp op i)
  show ?case
  proof (cases "i < length vp \<and> i < length op")
    case True
    then have dv: "drop i vp = vp ! i # drop (Suc i) vp" and do: "drop i op = op ! i # drop (Suc i) op"
      by (simp_all add: Cons_nth_drop_Suc)
    show ?thesis
    proof (cases "PRVersion_Compare (vp ! i) (op ! i) = 0")
      case z: True
      have "pre_loop vp op (i + 1) = lex_cmp (drop (i + 1) vp) (drop (i + 1) op)"
        using "1.IH" [OF True refl z] True by simp
      then show ?thesis
        using True z by (subst pre_loop.simps) (simp add: dv do)
    next
      case False
      then show ?thesis
        using True by (subst pre_loop.simps) (simp add: dv do Let_def)
    qed
  next
    case False
    then consider "i = length vp" "i = length op" | "i = length vp" "i < length op" | "i < length vp" "i = length op"
      using "1.prems" by linarith
    then show ?thesis
    proof cases
      case 1
      then show ?thesis by (subst pre_loop.simps) simp
    next
      case 2
      then obtain y ys where "drop i op = y # ys" by (metis Cons_nth_drop_Suc)
      then show ?thesis using 2 by (subst pre_loop.simps) simp
    next
      case 3
      then obtain x xs where "drop i vp = x # xs" by (metis Cons_nth_drop_Suc)
      then show ?thesis using 3 by (subst pre_loop.simps) simp
    qed
  qed
qed

lemma lex_cmp_range: "lex_cmp xs ys = - 1 \<or> lex_cmp xs ys = 0 \<or> lex_cmp xs ys = 1"
  by (induction xs ys rule: lex_cmp.induct) auto

lemma lex_cmp_refl: "lex_cmp xs xs = 0"
  by (induction xs) (auto simp: PRVersion_Compare_refl)

lemma lex_cmp_flip: "lex_cmp ys xs = - lex_cmp xs ys"
proof (induction xs ys rule: lex_cmp.induct)
  case (4 x xs y ys)
  then show ?case
    using PRVersion_Compare_flip [of x y] PRVersion_Compare_range [of x y] by auto
qed auto

lemma lex_cmp_tri: "tri_trans (lex_cmp xs ys) (lex_cmp ys zs) (lex_cmp xs zs)"
proof (induction xs ys arbitrary: zs rule: lex_cmp.induct)
  case 1
  then show ?case using lex_cmp_range [of "[]" zs] by (cases zs) (auto simp: tri_trans_def)
next
  case (2 y ys)
  then show ?case by (cases zs) (auto simp: tri_trans_def)
next
  case (3 x xs)
  then show ?case by (cases zs) (auto simp: tri_trans_def)
next
  case (4 x xs y ys)
  show ?case
  proof (cases zs)
    case Nil
    then show ?thesis by (auto simp: tri_trans_def)
  next
    case (Cons z zs')
    have a: "tri_trans (PRVersion_Compare x y) (PRVersion_Compare y z) (PRVersion_Compare x z)"
      by (rule PRVersion_Compare_tri)
    have l: "lex_cmp (p # xs') (q # ys') = lex2 (PRVersion_Compare p q) (lex_cmp xs' ys')" for xs' ys' p q
      using PRVersion_Compare_range [of p q] by (auto simp: lex2_def)
    show ?thesis
    proof (cases "PRVersion_Compare x y = 0")
      case True
      have b: "tri_trans (lex_cmp xs ys) (lex_cmp ys zs') (lex_cmp xs zs')"
        using "4.IH" [OF True] .
      show ?thesis unfolding Cons l by (rule tri_trans_lex2 [OF a b])
    next
      case False
      then show ?thesis
        using a PRVersion_Compare_range [of x y] PRVersion_Compare_range [of y z] PRVersion_Compare_range [of x z]
        unfolding Cons by (auto simp: tri_trans_def split: if_splits)
    qed
  qed
qed


lemma compare_prerelease_lex:
  "compare_prerelease vp op =
     (if vp = [] then (if op = [] then 0 else 1) else if op = [] then - 1 else lex_cmp vp op)"
  by (simp add: compare_prerelease_def pre_loop_lex_cmp)

lemma compare_prerelease_range:
  "compare_prerelease xs ys = - 1 \<or> compare_prerelease xs ys = 0 \<or> compare_prerelease xs ys = 1"
  using lex_cmp_range [of xs ys] by (simp add: compare_prerelease_lex)

lemma compare_prerelease_refl: "compare_prerelease xs xs = 0"
  by (simp add: compare_prerelease_lex lex_cmp_refl)

lemma compare_prerelease_flip: "compare_prerelease ys xs = - compare_prerelease xs ys"
  using lex_cmp_flip [of xs ys] by (simp add: compare_prerelease_lex)

lemma compare_prerelease_tri:
  "tri_trans (compare_prerelease xs ys) (compare_prerelease ys zs) (compare_prerelease xs zs)"
proof (cases "xs = [] \<or> ys = [] \<or> zs = []")
  case True
  then show ?thesis
    using lex_cmp_range [of xs ys] lex_cmp_range [of ys zs] lex_cmp_range [of xs zs]
    by (auto simp: compare_prerelease_lex tri_trans_def)
next
  case False
  then show ?thesis using lex_cmp_tri [of xs ys zs] by (simp add: compare_prerelease_lex)
qed

lemma cmp_word_range: "cmp_word x y = - 1 \<or> cmp_word x y = 0 \<or> cmp_word x y = 1"
  by (simp add: cmp_word_def)

lemma cmp_word_flip: "cmp_word y x = - cmp_word x y"
  by (auto simp: cmp_word_def)

lemma cmp_word_tri: "tri_trans (cmp_word x y) (cmp_word y z) (cmp_word x z)"
  by (auto simp: cmp_word_def tri_trans_def split: if_splits)

lemma cmp_rev_range: "cmp_rev x y = - 1 \<or> cmp_rev x y = 0 \<or> cmp_rev x y = 1"
  by (simp add: cmp_rev_def)

lemma sint_eq_iff: "sint (x :: 64 word) = sint y \<longleftrightarrow> x = y"
  by (auto intro: signed_word_eqI)

lemma cmp_rev_flip: "cmp_rev y x = - cmp_rev x y"
  using sint_eq_iff [of x y] by (auto simp: cmp_rev_def)

lemma cmp_rev_tri:
  "(x = - 1 \<and> y = - 1 \<and> z = - 1) \<or> (x \<noteq> - 1 \<and> y \<noteq> - 1 \<and> z \<noteq> - 1)
   \<Longrightarrow> tri_trans (cmp_rev x y) (cmp_rev y z) (cmp_rev x z)"
  using sint_eq_iff [of x y] sint_eq_iff [of y z] sint_eq_iff [of x z]
  by (auto simp: cmp_rev_def tri_trans_def split: if_splits)

lemma Version_Compare_lex2:
  "Version_Compare v w =
     lex2 (cmp_word (Major v) (Major w))
    (lex2 (cmp_word (Minor v) (Minor w))
    (lex2 (cmp_word (Patch v) (Patch w))
    (lex2 (cmp_rev (Revision v) (Revision w))
          (compare_prerelease (Pre v) (Pre w)))))"
  by (simp add: Version_Compare_def lex2_def cmp_word_def cmp_rev_def)

lemma lex2_range:
  "a = - 1 \<or> a = 0 \<or> a = 1 \<Longrightarrow> b = - 1 \<or> b = 0 \<or> b = 1
   \<Longrightarrow> lex2 a b = - 1 \<or> lex2 a b = 0 \<or> lex2 a b = 1"
  by (auto simp: lex2_def)

lemma lex2_flip: "lex2 (- a) (- b) = - lex2 a b"
  by (simp add: lex2_def)

lemma Version_Compare_range:
  "Version_Compare v w = - 1 \<or> Version_Compare v w = 0 \<or> Version_Compare v w = 1"
  unfolding Version_Compare_lex2
  by (intro lex2_range cmp_word_range cmp_rev_range compare_prerelease_range)

lemma Version_Compare_refl: "Version_Compare v v = 0"
  by (simp add: Version_Compare_def compare_prerelease_refl)

lemma Version_Compare_flip: "Version_Compare w v = - Version_Compare v w"
  unfolding Version_Compare_lex2
  by (simp add: cmp_word_flip [of "Major v"] cmp_word_flip [of "Minor v"] cmp_word_flip [of "Patch v"]
      cmp_rev_flip [of "Revision v"] compare_prerelease_flip [of "Pre v"] lex2_flip)

definition same_revision_mode :: "Version \<Rightarrow> Version \<Rightarrow> Version \<Rightarrow> bool" where
  "same_revision_mode a b c =
     ((Revision a = - 1 \<and> Revision b = - 1 \<and> Revision c = - 1)
      \<or> (Revision a \<noteq> - 1 \<and> Revision b \<noteq> - 1 \<and> Revision c \<noteq> - 1))"

lemma Version_Compare_tri:
  "same_revision_mode a b c
   \<Longrightarrow> tri_trans (Version_Compare a b) (Version_Compare b c) (Version_Compare a c)"
  unfolding Version_Compare_lex2 same_revision_mode_def
  by (intro tri_trans_lex2 cmp_word_tri cmp_rev_tri compare_prerelease_tri)

lemma same_revision_mode_rev: "same_revision_mode a b c \<Longrightarrow> same_revision_mode c b a"
  by (auto simp: same_revision_mode_def)

lemma lex_cmp_first_diff:
  "i < length xs \<Longrightarrow> i < length ys
   \<Longrightarrow> (\<forall>j<i. PRVersion_Compare (xs ! j) (ys ! j) = 0)
   \<Longrightarrow> PRVersion_Compare (xs ! i) (ys ! i) \<noteq> 0
   \<Longrightarrow> lex_cmp xs ys = PRVersion_Compare (xs ! i) (ys ! i)"
proof (induction xs ys arbitrary: i rule: lex_cmp.induct)
  case (4 x xs y ys)
  show ?case
  proof (cases i)
    case 0
    then show ?thesis using "4.prems" PRVersion_Compare_range [of x y] by auto
  next
    case (Suc k)
    have z: "PRVersion_Compare x y = 0" using "4.prems"(3) Suc by auto
    have "\<forall>j<k. PRVersion_Compare (xs ! j) (ys ! j) = 0"
      using "4.prems"(3) Suc by auto
    then have "lex_cmp xs ys = PRVersion_Compare (xs ! k) (ys ! k)"
      using "4.IH" [OF z, of k] "4.prems" Suc by simp
    then show ?thesis using z Suc by simp
  qed
qed simp_all

lemma lex_cmp_all_equal:
  "length xs = length ys \<Longrightarrow> (\<forall>j<length xs. PRVersion_Compare (xs ! j) (ys ! j) = 0)
   \<Longrightarrow> lex_cmp xs ys = 0"
proof (induction xs ys rule: lex_cmp.induct)
  case (4 x xs y ys)
  have z: "PRVersion_Compare x y = 0" using "4.prems"(2) by auto
  have "\<forall>j<length xs. PRVersion_Compare (xs ! j) (ys ! j) = 0"
    using "4.prems"(2) by auto
  then show ?case using "4.IH" [OF z] "4.prems"(1) z by simp
qed simp_all

lemma lex_cmp_prefix:
  "length xs < length ys \<Longrightarrow> (\<forall>j<length xs. PRVersion_Compare (xs ! j) (ys ! j) = 0)
   \<Longrightarrow> lex_cmp xs ys = - 1"
proof (induction xs ys rule: lex_cmp.induct)
  case (4 x xs y ys)
  have z: "PRVersion_Compare x y = 0" using "4.prems"(2) by auto
  have "\<forall>j<length xs. PRVersion_Compare (xs ! j) (ys ! j) = 0"
    using "4.prems"(2) by auto
  then show ?case using "4.IH" [OF z] "4.prems"(1) z by simp
qed simp_all

lemma Version_Compare_same_numbers:
  "Major a = Major b \<Longrightarrow> Minor a = Minor b \<Longrightarrow> Patch a = Patch b
   \<Longrightarrow> Revision a = Revision b \<or> Revision a = - 1 \<or> Revision b = - 1
   \<Longrightarrow> Version_Compare a b = compare_prerelease (Pre a) (Pre b)"
  by (auto simp: Version_Compare_def)

definition compare_parsed :: "string \<Rightarrow> string \<Rightarrow> int option" where
  "compare_parsed s t =
     (case Parse s of
        Inl e \<Rightarrow> None
      | Inr a \<Rightarrow> (case Parse t of Inl e \<Rightarrow> None | Inr b \<Rightarrow> Some (Version_Compare a b)))"

lemma Parse_1_2_3:
  "Parse ''1.2.3'' = Inr \<lparr>Major = 1, Minor = 2, Patch = 3, Revision = - 1, Pre = [], Build = []\<rparr>"
  by code_simp

lemma Parse_1_2_3_0:
  "Parse ''1.2.3.0'' = Inr \<lparr>Major = 1, Minor = 2, Patch = 3, Revision = 0, Pre = [], Build = []\<rparr>"
  by code_simp

lemma Parse_1_2_3_1:
  "Parse ''1.2.3.1'' = Inr \<lparr>Major = 1, Minor = 2, Patch = 3, Revision = 1, Pre = [], Build = []\<rparr>"
  by code_simp

lemma Parse_1_2_3_2:
  "Parse ''1.2.3.2'' = Inr \<lparr>Major = 1, Minor = 2, Patch = 3, Revision = 2, Pre = [], Build = []\<rparr>"
  by code_simp

lemma Parse_1_2_4:
  "Parse ''1.2.4'' = Inr \<lparr>Major = 1, Minor = 2, Patch = 4, Revision = - 1, Pre = [], Build = []\<rparr>"
  by code_simp

lemma Parse_1_2_3_4:
  "Parse ''1.2.3.4'' = Inr \<lparr>Major = 1, Minor = 2, Patch = 3, Revision = 4, Pre = [], Build = []\<rparr>"
  by code_simp

lemma Parse_1_3_0_0:
  "Parse ''1.3.0.0'' = Inr \<lparr>Major = 1, Minor = 3, Patch = 0, Revision = 0, Pre = [], Build = []\<rparr>"
  by code_simp

lemma Parse_0_0_0:
  "Parse ''0.0.0'' = Inr \<lparr>Major = 0, Minor = 0, Patch = 0, Revision = - 1, Pre = [], Build = []\<rparr>"
  by code_simp

lemma ParseTolerant_empty: "ParseTolerant [] = Parse ''0.0.0''"
  by code_simp

lemma tolerant_matches_empty: "MatchString kongTolerantVersionRegexFormat []"
  by code_simp

lemma strict_rejects_empty: "\<not> MatchString kongVersionRegexFormat []"
  by code_simp

section \<open>The claims about the ordering and the mutators\<close>

text \<open>
  What holds of \<open>Compare\<close> on all versions: it returns one of \<open>-1\<close>, \<open>0\<close>, \<open>1\<close>, it is
  \<open>0\<close> on a version and itself, and \<open>Compare(a,b) = 1\<close> gives \<open>Compare(b,a) = -1\<close>. It is
  transitive on three versions whose revisions are all absent or all present.
\<close>

theorem Compare_order_same_revision_mode:
  "(Version_Compare a b = - 1 \<or> Version_Compare a b = 0 \<or> Version_Compare a b = 1)
   \<and> Version_Compare a a = 0
   \<and> (Version_Compare a b = 1 \<longrightarrow> Version_Compare b a = - 1)
   \<and> (same_revision_mode a b c \<longrightarrow>
        (Version_Compare a b = 0 \<and> Version_Compare b c = 0 \<longrightarrow> Version_Compare a c = 0)
      \<and> (Version_Compare a b \<le> 0 \<and> Version_Compare b c \<le> 0 \<longrightarrow> Version_Compare a c \<le> 0)
      \<and> (Version_Compare a b = - 1 \<and> Version_Compare b c = - 1 \<longrightarrow> Version_Compare a c = - 1)
      \<and> (Version_Compare a b = 1 \<and> Version_Compare b c = 1 \<longrightarrow> Version_Compare a c = 1))"
proof -
  have r: "Version_Compare a b = - 1 \<or> Version_Compare a b = 0 \<or> Version_Compare a b = 1"
    by (rule Version_Compare_range)
  have f: "Version_Compare a b = 1 \<longrightarrow> Version_Compare b a = - 1"
    using Version_Compare_flip [of a b] by simp
  have t: "(Version_Compare a b = 0 \<and> Version_Compare b c = 0 \<longrightarrow> Version_Compare a c = 0)
      \<and> (Version_Compare a b \<le> 0 \<and> Version_Compare b c \<le> 0 \<longrightarrow> Version_Compare a c \<le> 0)
      \<and> (Version_Compare a b = - 1 \<and> Version_Compare b c = - 1 \<longrightarrow> Version_Compare a c = - 1)
      \<and> (Version_Compare a b = 1 \<and> Version_Compare b c = 1 \<longrightarrow> Version_Compare a c = 1)"
    if m: "same_revision_mode a b c"
  proof -
    have t1: "tri_trans (Version_Compare a b) (Version_Compare b c) (Version_Compare a c)"
      by (rule Version_Compare_tri [OF m])
    have t2: "tri_trans (Version_Compare c b) (Version_Compare b a) (Version_Compare c a)"
      by (rule Version_Compare_tri [OF same_revision_mode_rev [OF m]])
    show ?thesis
      using t1 t2 Version_Compare_flip [of a b] Version_Compare_flip [of b c]
        Version_Compare_flip [of a c] Version_Compare_range [of a c]
      unfolding tri_trans_def by (smt (verit))
  qed
  show ?thesis using r f t Version_Compare_refl [of a] by blast
qed

theorem Compare_order_same_revision_mode_witness:
  "same_revision_mode
     \<lparr>Major = 1, Minor = 2, Patch = 3, Revision = 1, Pre = [], Build = []\<rparr>
     \<lparr>Major = 1, Minor = 2, Patch = 3, Revision = 2, Pre = [], Build = []\<rparr>
     \<lparr>Major = 1, Minor = 2, Patch = 4, Revision = 0, Pre = [], Build = []\<rparr>
   \<and> Version_Compare
     \<lparr>Major = 1, Minor = 2, Patch = 3, Revision = 1, Pre = [], Build = []\<rparr>
     \<lparr>Major = 1, Minor = 2, Patch = 3, Revision = 2, Pre = [], Build = []\<rparr> = - 1
   \<and> Version_Compare
     \<lparr>Major = 1, Minor = 2, Patch = 3, Revision = 2, Pre = [], Build = []\<rparr>
     \<lparr>Major = 1, Minor = 2, Patch = 4, Revision = 0, Pre = [], Build = []\<rparr> = - 1
   \<and> Version_Compare
     \<lparr>Major = 1, Minor = 2, Patch = 3, Revision = 1, Pre = [], Build = []\<rparr>
     \<lparr>Major = 1, Minor = 2, Patch = 4, Revision = 0, Pre = [], Build = []\<rparr> = - 1
   \<and> Version_Compare
     \<lparr>Major = 1, Minor = 2, Patch = 3, Revision = 2, Pre = [], Build = []\<rparr>
     \<lparr>Major = 1, Minor = 2, Patch = 3, Revision = 1, Pre = [], Build = []\<rparr> = 1"
  using Compare_order_same_revision_mode
    [of "\<lparr>Major = 1, Minor = 2, Patch = 3, Revision = 1, Pre = [], Build = []\<rparr>"
        "\<lparr>Major = 1, Minor = 2, Patch = 3, Revision = 2, Pre = [], Build = []\<rparr>"
        "\<lparr>Major = 1, Minor = 2, Patch = 4, Revision = 0, Pre = [], Build = []\<rparr>"]
    Compare_order_same_revision_mode
    [of "\<lparr>Major = 1, Minor = 2, Patch = 3, Revision = 2, Pre = [], Build = []\<rparr>"
        "\<lparr>Major = 1, Minor = 2, Patch = 3, Revision = 1, Pre = [], Build = []\<rparr>"
        "\<lparr>Major = 1, Minor = 2, Patch = 3, Revision = 1, Pre = [], Build = []\<rparr>"]
  by (simp add: same_revision_mode_def Version_Compare_def compare_prerelease_def)

text \<open>
  Claim C1: \<open>Compare\<close> is a total order on parsed versions, transitive in particular.
  The code is not: the guard on the revision makes an absent revision tie with every
  present one, so \<open>1.2.3.1\<close> and \<open>1.2.3.2\<close> both compare equal to \<open>1.2.3\<close> while
  \<open>1.2.3.1\<close> is less than \<open>1.2.3.2\<close>. The comment above the guard says that
  \<open>1.2.3 < 1.2.3.4\<close> is true; the code returns \<open>0\<close> for that pair.
\<close>

theorem Compare_not_transitive:
  "compare_parsed ''1.2.3.1'' ''1.2.3'' = Some 0
   \<and> compare_parsed ''1.2.3'' ''1.2.3.2'' = Some 0
   \<and> compare_parsed ''1.2.3.1'' ''1.2.3.2'' = Some (- 1)
   \<and> compare_parsed ''1.2.3'' ''1.2.3.4'' = Some 0"
  by (simp add: compare_parsed_def Parse_1_2_3 Parse_1_2_3_1 Parse_1_2_3_2 Parse_1_2_3_4
      Version_Compare_def compare_prerelease_def)

text \<open>
  Claim C4. For versions that agree on major, minor and patch: two present revisions
  (\<open>\<ge> 0\<close>) that differ decide, the larger winning; when one of them is absent (\<open>-1\<close>),
  or both are, the result is that of the pre-release comparison. A smaller patch makes
  the version less, whatever the revisions. \<open>Compare(Parse("1.2.3"), Parse("1.2.3.0"))\<close>
  is \<open>0\<close> and \<open>Compare(Parse("1.2.3.1"), Parse("1.2.4"))\<close> is \<open>-1\<close>.
\<close>

theorem revision_tie_rule:
  "(Major a = Major b \<and> Minor a = Minor b \<and> Patch a = Patch b \<longrightarrow>
      (0 \<le> sint (Revision a) \<and> 0 \<le> sint (Revision b) \<and> Revision a \<noteq> Revision b \<longrightarrow>
         Version_Compare a b = (if sint (Revision a) > sint (Revision b) then 1 else - 1))
    \<and> (Revision a = - 1 \<or> Revision b = - 1 \<longrightarrow>
         Version_Compare a b = compare_prerelease (Pre a) (Pre b)))
   \<and> (Major a = Major b \<and> Minor a = Minor b \<and> Patch a < Patch b \<longrightarrow>
         Version_Compare a b = - 1 \<and> Version_Compare b a = 1)
   \<and> compare_parsed ''1.2.3'' ''1.2.3.0'' = Some 0
   \<and> compare_parsed ''1.2.3.1'' ''1.2.4'' = Some (- 1)"
proof -
  have a: "Major a = Major b \<and> Minor a = Minor b \<and> Patch a = Patch b \<longrightarrow>
      (0 \<le> sint (Revision a) \<and> 0 \<le> sint (Revision b) \<and> Revision a \<noteq> Revision b \<longrightarrow>
         Version_Compare a b = (if sint (Revision a) > sint (Revision b) then 1 else - 1))"
    by (auto simp: Version_Compare_def)
  have b: "Major a = Major b \<and> Minor a = Minor b \<and> Patch a = Patch b \<longrightarrow>
      (Revision a = - 1 \<or> Revision b = - 1 \<longrightarrow>
         Version_Compare a b = compare_prerelease (Pre a) (Pre b))"
    by (auto simp: Version_Compare_same_numbers)
  have c: "Major a = Major b \<and> Minor a = Minor b \<and> Patch a < Patch b \<longrightarrow>
         Version_Compare a b = - 1 \<and> Version_Compare b a = 1"
    by (auto simp: Version_Compare_def)
  have d: "compare_parsed ''1.2.3'' ''1.2.3.0'' = Some 0"
    by (simp add: compare_parsed_def Parse_1_2_3 Parse_1_2_3_0 Version_Compare_def
        compare_prerelease_def)
  have e: "compare_parsed ''1.2.3.1'' ''1.2.4'' = Some (- 1)"
    by (simp add: compare_parsed_def Parse_1_2_3_1 Parse_1_2_4 Version_Compare_def)
  show ?thesis using a b c d e by blast
qed

theorem revision_tie_rule_witness:
  "Version_Compare
     \<lparr>Major = 1, Minor = 2, Patch = 3, Revision = 5, Pre = [], Build = []\<rparr>
     \<lparr>Major = 1, Minor = 2, Patch = 3, Revision = 7, Pre = [], Build = []\<rparr> = - 1
   \<and> Version_Compare
     \<lparr>Major = 1, Minor = 2, Patch = 3, Revision = - 1,
      Pre = [\<lparr>VersionStr = ''rc'', VersionNum = 0, IsNum = False\<rparr>], Build = []\<rparr>
     \<lparr>Major = 1, Minor = 2, Patch = 3, Revision = 0, Pre = [], Build = []\<rparr> = - 1
   \<and> Version_Compare
     \<lparr>Major = 1, Minor = 2, Patch = 3, Revision = 9, Pre = [], Build = []\<rparr>
     \<lparr>Major = 1, Minor = 2, Patch = 4, Revision = 0, Pre = [], Build = []\<rparr> = - 1"
  using revision_tie_rule
    [of "\<lparr>Major = 1, Minor = 2, Patch = 3, Revision = 5, Pre = [], Build = []\<rparr>"
        "\<lparr>Major = 1, Minor = 2, Patch = 3, Revision = 7, Pre = [], Build = []\<rparr>"]
    revision_tie_rule
    [of "\<lparr>Major = 1, Minor = 2, Patch = 3, Revision = - 1,
          Pre = [\<lparr>VersionStr = ''rc'', VersionNum = 0, IsNum = False\<rparr>], Build = []\<rparr>"
        "\<lparr>Major = 1, Minor = 2, Patch = 3, Revision = 0, Pre = [], Build = []\<rparr>"]
    revision_tie_rule
    [of "\<lparr>Major = 1, Minor = 2, Patch = 3, Revision = 9, Pre = [], Build = []\<rparr>"
        "\<lparr>Major = 1, Minor = 2, Patch = 4, Revision = 0, Pre = [], Build = []\<rparr>"]
  by (simp add: compare_prerelease_def)

text \<open>
  Claim C6. Two versions with the same major, minor, patch, revision and pre-release
  list compare as \<open>0\<close>, whatever their build lists, and \<open>Equals\<close> holds of them.
\<close>

theorem build_metadata_irrelevant:
  assumes "Major a = Major b" and "Minor a = Minor b" and "Patch a = Patch b"
    and "Revision a = Revision b" and "Pre a = Pre b"
  shows "Version_Compare a b = 0 \<and> Equals a b"
  using assms by (simp add: Equals_def Version_Compare_same_numbers compare_prerelease_refl)

theorem build_metadata_irrelevant_witness:
  "Version_Compare
     \<lparr>Major = 1, Minor = 2, Patch = 3, Revision = 4,
      Pre = [\<lparr>VersionStr = ''rc'', VersionNum = 0, IsNum = False\<rparr>], Build = [''x'']\<rparr>
     \<lparr>Major = 1, Minor = 2, Patch = 3, Revision = 4,
      Pre = [\<lparr>VersionStr = ''rc'', VersionNum = 0, IsNum = False\<rparr>], Build = [''y'', ''007'']\<rparr> = 0
   \<and> Equals
     \<lparr>Major = 1, Minor = 2, Patch = 3, Revision = 4,
      Pre = [\<lparr>VersionStr = ''rc'', VersionNum = 0, IsNum = False\<rparr>], Build = [''x'']\<rparr>
     \<lparr>Major = 1, Minor = 2, Patch = 3, Revision = 4,
      Pre = [\<lparr>VersionStr = ''rc'', VersionNum = 0, IsNum = False\<rparr>], Build = [''y'', ''007'']\<rparr>"
  by (rule build_metadata_irrelevant) simp_all

text \<open>
  Claim C7. For versions with the same major, minor, patch and revision: an empty
  pre-release list is greater than a non-empty one; two non-empty lists are compared
  position by position, the first position where the identifiers differ deciding, lists
  of the same length that agree everywhere giving \<open>0\<close>, and a list that agrees with the
  start of a longer one being less. An identifier that is numeric is less than one that
  is not, two numeric ones compare by value and two others as byte strings.
\<close>

theorem prerelease_precedence:
  assumes "Major a = Major b" and "Minor a = Minor b" and "Patch a = Patch b"
    and "Revision a = Revision b"
  shows
    "(Pre a = [] \<and> Pre b \<noteq> [] \<longrightarrow> Version_Compare a b = 1 \<and> Version_Compare b a = - 1)
   \<and> (Pre a \<noteq> [] \<and> Pre b \<noteq> [] \<longrightarrow>
        (\<forall>i. i < length (Pre a) \<and> i < length (Pre b)
              \<and> (\<forall>j<i. PRVersion_Compare (Pre a ! j) (Pre b ! j) = 0)
              \<and> PRVersion_Compare (Pre a ! i) (Pre b ! i) \<noteq> 0
              \<longrightarrow> Version_Compare a b = PRVersion_Compare (Pre a ! i) (Pre b ! i))
      \<and> (length (Pre a) = length (Pre b)
           \<and> (\<forall>j<length (Pre a). PRVersion_Compare (Pre a ! j) (Pre b ! j) = 0)
           \<longrightarrow> Version_Compare a b = 0)
      \<and> (length (Pre a) < length (Pre b)
           \<and> (\<forall>j<length (Pre a). PRVersion_Compare (Pre a ! j) (Pre b ! j) = 0)
           \<longrightarrow> Version_Compare a b = - 1 \<and> Version_Compare b a = 1))
   \<and> (\<forall>x y.
        (IsNum x \<and> \<not> IsNum y \<longrightarrow> PRVersion_Compare x y = - 1 \<and> PRVersion_Compare y x = 1)
      \<and> (IsNum x \<and> IsNum y \<longrightarrow>
           PRVersion_Compare x y =
             (if unat (VersionNum x) < unat (VersionNum y) then - 1
              else if unat (VersionNum x) = unat (VersionNum y) then 0 else 1))
      \<and> (\<not> IsNum x \<and> \<not> IsNum y \<longrightarrow>
           PRVersion_Compare x y =
             (if VersionStr x < VersionStr y then - 1
              else if VersionStr x = VersionStr y then 0 else 1)))"
proof -
  have c: "Version_Compare a b = compare_prerelease (Pre a) (Pre b)"
    using assms by (simp add: Version_Compare_same_numbers)
  have c': "Version_Compare b a = - compare_prerelease (Pre a) (Pre b)"
    using c Version_Compare_flip [of a b] by simp
  have p1: "Pre a = [] \<and> Pre b \<noteq> [] \<longrightarrow> Version_Compare a b = 1 \<and> Version_Compare b a = - 1"
    unfolding c c' by (simp add: compare_prerelease_lex)
  have p2: "Pre a \<noteq> [] \<and> Pre b \<noteq> [] \<longrightarrow>
        (\<forall>i. i < length (Pre a) \<and> i < length (Pre b)
              \<and> (\<forall>j<i. PRVersion_Compare (Pre a ! j) (Pre b ! j) = 0)
              \<and> PRVersion_Compare (Pre a ! i) (Pre b ! i) \<noteq> 0
              \<longrightarrow> Version_Compare a b = PRVersion_Compare (Pre a ! i) (Pre b ! i))
      \<and> (length (Pre a) = length (Pre b)
           \<and> (\<forall>j<length (Pre a). PRVersion_Compare (Pre a ! j) (Pre b ! j) = 0)
           \<longrightarrow> Version_Compare a b = 0)
      \<and> (length (Pre a) < length (Pre b)
           \<and> (\<forall>j<length (Pre a). PRVersion_Compare (Pre a ! j) (Pre b ! j) = 0)
           \<longrightarrow> Version_Compare a b = - 1 \<and> Version_Compare b a = 1)"
    unfolding c c'
    by (simp add: compare_prerelease_lex lex_cmp_first_diff lex_cmp_all_equal lex_cmp_prefix)
  have p3: "(IsNum x \<and> \<not> IsNum y \<longrightarrow> PRVersion_Compare x y = - 1 \<and> PRVersion_Compare y x = 1)
      \<and> (IsNum x \<and> IsNum y \<longrightarrow>
           PRVersion_Compare x y =
             (if unat (VersionNum x) < unat (VersionNum y) then - 1
              else if unat (VersionNum x) = unat (VersionNum y) then 0 else 1))
      \<and> (\<not> IsNum x \<and> \<not> IsNum y \<longrightarrow>
           PRVersion_Compare x y =
             (if VersionStr x < VersionStr y then - 1
              else if VersionStr x = VersionStr y then 0 else 1))" for x y
    by (auto simp: PRVersion_Compare_def word_less_nat_alt dest: unsigned_word_eqI)
  show ?thesis using p1 p2 p3 by blast
qed

theorem prerelease_precedence_witness:
  "Version_Compare
     \<lparr>Major = 1, Minor = 0, Patch = 0, Revision = - 1, Pre = [], Build = []\<rparr>
     \<lparr>Major = 1, Minor = 0, Patch = 0, Revision = - 1,
      Pre = [\<lparr>VersionStr = ''alpha'', VersionNum = 0, IsNum = False\<rparr>], Build = []\<rparr> = 1
   \<and> Version_Compare
     \<lparr>Major = 1, Minor = 0, Patch = 0, Revision = - 1,
      Pre = [\<lparr>VersionStr = ''alpha'', VersionNum = 0, IsNum = False\<rparr>,
             \<lparr>VersionStr = [], VersionNum = 1, IsNum = True\<rparr>], Build = []\<rparr>
     \<lparr>Major = 1, Minor = 0, Patch = 0, Revision = - 1,
      Pre = [\<lparr>VersionStr = ''alpha'', VersionNum = 0, IsNum = False\<rparr>,
             \<lparr>VersionStr = ''beta'', VersionNum = 0, IsNum = False\<rparr>], Build = []\<rparr> = - 1
   \<and> Version_Compare
     \<lparr>Major = 1, Minor = 0, Patch = 0, Revision = - 1,
      Pre = [\<lparr>VersionStr = ''alpha'', VersionNum = 0, IsNum = False\<rparr>], Build = []\<rparr>
     \<lparr>Major = 1, Minor = 0, Patch = 0, Revision = - 1,
      Pre = [\<lparr>VersionStr = ''alpha'', VersionNum = 0, IsNum = False\<rparr>,
             \<lparr>VersionStr = [], VersionNum = 1, IsNum = True\<rparr>], Build = []\<rparr> = - 1
   \<and> PRVersion_Compare \<lparr>VersionStr = [], VersionNum = 2, IsNum = True\<rparr>
        \<lparr>VersionStr = [], VersionNum = 11, IsNum = True\<rparr> = - 1"
proof -
  let ?al = "\<lparr>VersionStr = ''alpha'', VersionNum = 0, IsNum = False\<rparr>"
  let ?be = "\<lparr>VersionStr = ''beta'', VersionNum = 0, IsNum = False\<rparr>"
  let ?n1 = "\<lparr>VersionStr = [], VersionNum = 1, IsNum = True\<rparr>"
  let ?v = "\<lambda>p. \<lparr>Major = 1, Minor = 0, Patch = 0, Revision = - 1, Pre = p, Build = []\<rparr>"
  have n: "PRVersion_Compare ?n1 ?be = - 1" "PRVersion_Compare ?al ?al = 0"
    by (simp_all add: PRVersion_Compare_def)
  have 1: "Version_Compare (?v []) (?v [?al]) = 1"
    using prerelease_precedence [of "?v [?al]" "?v []"]
      prerelease_precedence [of "?v []" "?v [?al]"] by simp
  have "\<forall>i. i < length (Pre (?v [?al, ?n1])) \<and> i < length (Pre (?v [?al, ?be]))
              \<and> (\<forall>j<i. PRVersion_Compare (Pre (?v [?al, ?n1]) ! j) (Pre (?v [?al, ?be]) ! j) = 0)
              \<and> PRVersion_Compare (Pre (?v [?al, ?n1]) ! i) (Pre (?v [?al, ?be]) ! i) \<noteq> 0
              \<longrightarrow> Version_Compare (?v [?al, ?n1]) (?v [?al, ?be])
                  = PRVersion_Compare (Pre (?v [?al, ?n1]) ! i) (Pre (?v [?al, ?be]) ! i)"
    using prerelease_precedence [of "?v [?al, ?n1]" "?v [?al, ?be]"] by simp
  from this [rule_format, of 1]
  have 2: "Version_Compare (?v [?al, ?n1]) (?v [?al, ?be]) = - 1"
    using n by (simp add: less_Suc_eq)
  have 3: "Version_Compare (?v [?al]) (?v [?al, ?n1]) = - 1"
    using prerelease_precedence [of "?v [?al]" "?v [?al, ?n1]"] n by simp
  have 4: "PRVersion_Compare \<lparr>VersionStr = [], VersionNum = 2, IsNum = True\<rparr>
        \<lparr>VersionStr = [], VersionNum = 11, IsNum = True\<rparr> = - 1"
    using prerelease_precedence [of "?v []" "?v []"] by simp
  show ?thesis using 1 2 3 4 by simp
qed

text \<open>
  Claim C9. \<open>IncrementMinor\<close> returns no error; it adds one to minor (a \<open>uint64\<close>
  increment), sets patch to \<open>0\<close>, sets a revision that is \<open>\<ge> 0\<close> to \<open>0\<close> and leaves any
  other revision (the absent \<open>-1\<close>) as it is, and leaves major, the pre-release list and
  the build list unchanged. \<open>Parse("1.2.3.4")\<close> incremented is \<open>Parse("1.3.0.0")\<close>.
\<close>

theorem IncrementMinor_effect:
  "fst (IncrementMinor v) = None
   \<and> Minor (snd (IncrementMinor v)) = Minor v + 1
   \<and> Patch (snd (IncrementMinor v)) = 0
   \<and> Revision (snd (IncrementMinor v)) = (if 0 \<le> sint (Revision v) then 0 else Revision v)
   \<and> Major (snd (IncrementMinor v)) = Major v
   \<and> Pre (snd (IncrementMinor v)) = Pre v
   \<and> Build (snd (IncrementMinor v)) = Build v
   \<and> Parse ''1.2.3.4'' = Inr \<lparr>Major = 1, Minor = 2, Patch = 3, Revision = 4, Pre = [], Build = []\<rparr>
   \<and> Parse ''1.3.0.0'' = Inr \<lparr>Major = 1, Minor = 3, Patch = 0, Revision = 0, Pre = [], Build = []\<rparr>
   \<and> snd (IncrementMinor \<lparr>Major = 1, Minor = 2, Patch = 3, Revision = 4, Pre = [], Build = []\<rparr>)
       = \<lparr>Major = 1, Minor = 3, Patch = 0, Revision = 0, Pre = [], Build = []\<rparr>"
  by (simp add: IncrementMinor_def Let_def Parse_1_2_3_4 Parse_1_3_0_0)

section \<open>What a match of a pattern leaves behind\<close>

fun min_len :: "regex \<Rightarrow> nat" where
  "min_len (CSet its) = 1"
| "min_len (Lit d) = 1"
| "min_len (Seq a b) = min_len a + min_len b"
| "min_len (Alt a b) = min (min_len a) (min_len b)"
| "min_len (Opt a) = 0"
| "min_len (Star a) = 0"
| "min_len (Plus a) = min_len a"
| "min_len (Grp n a) = min_len a"
| "min_len Eot = 0"

fun groups :: "regex \<Rightarrow> string set" where
  "groups (CSet its) = {}"
| "groups (Lit d) = {}"
| "groups (Seq a b) = groups a \<union> groups b"
| "groups (Alt a b) = groups a \<union> groups b"
| "groups (Opt a) = groups a"
| "groups (Star a) = groups a"
| "groups (Plus a) = groups a"
| "groups (Grp n a) = insert n (groups a)"
| "groups Eot = {}"

definition reaches :: "string set \<Rightarrow> nat \<Rightarrow> mstate \<Rightarrow> mstate \<Rightarrow> bool" where
  "reaches G k st st' =
     ((\<exists>p. snd st = p @ snd st' \<and> k \<le> length p) \<and> (\<forall>n. n \<notin> G \<longrightarrow> fst st' n = fst st n))"

lemma reaches_refl: "reaches G 0 st st"
  by (simp add: reaches_def)

lemma reaches_trans:
  "reaches G j a b \<Longrightarrow> reaches G k b c \<Longrightarrow> reaches G (j + k) a c"
  unfolding reaches_def
  by (metis (no_types, lifting) add_mono append.assoc length_append)

lemma reaches_weaken: "reaches G k a b \<Longrightarrow> G \<subseteq> H \<Longrightarrow> j \<le> k \<Longrightarrow> reaches H j a b"
  unfolding reaches_def by (meson in_mono order_trans)

lemma set_star:
  "st' \<in> set (star f st) \<longleftrightarrow>
     st' = st \<or> (\<exists>m \<in> set (f st). length (snd m) < length (snd st) \<and> st' \<in> set (star f m))"
  by (subst star.simps) auto

lemma star_reaches:
  "(\<And>st st'. st' \<in> set (f st) \<Longrightarrow> reaches G 0 st st')
   \<Longrightarrow> st' \<in> set (star f st) \<Longrightarrow> reaches G 0 st st'"
proof (induction f st rule: star.induct)
  case (1 f st)
  from "1.prems"(2) consider "st' = st"
    | m where "m \<in> set (f st)" "length (snd m) < length (snd st)" "st' \<in> set (star f m)"
    by (subst (asm) set_star) auto
  then show ?case
  proof cases
    case 1
    then show ?thesis by (simp add: reaches_refl)
  next
    case 2
    have "reaches G 0 m st'" using "1.IH" [of m] 2 "1.prems"(1) by simp
    moreover have "reaches G 0 st m" using "1.prems"(1) [OF 2(1)] .
    ultimately show ?thesis using reaches_trans [of G 0 st m 0 st'] by simp
  qed
qed

declare rx.simps(6) [simp del] rx.simps(7) [simp del] rx.simps(8) [simp del]

lemmas rx_Star = rx.simps(6)
lemmas rx_Plus = rx.simps(7)
lemmas rx_Grp = rx.simps(8)

lemma rx_reaches: "st' \<in> set (rx r st) \<Longrightarrow> reaches (groups r) (min_len r) st st'"
proof (induction r arbitrary: st st')
  case (CSet its)
  then obtain x where "snd st = x # snd st'" "fst st' = fst st"
    by (cases "snd st") (auto split: if_splits)
  then show ?case by (auto simp: reaches_def intro: exI [of _ "[x]"])
next
  case (Lit d)
  then obtain x where "snd st = x # snd st'" "fst st' = fst st"
    by (cases "snd st") (auto split: if_splits)
  then show ?case by (auto simp: reaches_def intro: exI [of _ "[x]"])
next
  case (Seq a b)
  then obtain m where m: "m \<in> set (rx a st)" "st' \<in> set (rx b m)" by auto
  have "reaches (groups a \<union> groups b) (min_len a) st m"
    using Seq.IH(1) [OF m(1)] by (rule reaches_weaken) auto
  moreover have "reaches (groups a \<union> groups b) (min_len b) m st'"
    using Seq.IH(2) [OF m(2)] by (rule reaches_weaken) auto
  ultimately show ?case using reaches_trans by fastforce
next
  case (Alt a b)
  then consider "st' \<in> set (rx a st)" | "st' \<in> set (rx b st)" by auto
  then show ?case
  proof cases
    case 1
    show ?thesis using Alt.IH(1) [OF 1] by (rule reaches_weaken) auto
  next
    case 2
    show ?thesis using Alt.IH(2) [OF 2] by (rule reaches_weaken) auto
  qed
next
  case (Opt a)
  then consider "st' \<in> set (rx a st)" | "st' = st" by auto
  then show ?case
  proof cases
    case 1
    show ?thesis using Opt.IH [OF 1] by (rule reaches_weaken) auto
  next
    case 2
    then show ?thesis by (simp add: reaches_refl)
  qed
next
  case (Star a)
  have step: "\<And>st st'. st' \<in> set (rx a st) \<Longrightarrow> reaches (groups a) 0 st st'"
    using Star.IH by (rule reaches_weaken) auto
  show ?case using star_reaches [of "rx a" "groups a" st' st, OF step] Star.prems by (simp add: rx_Star)
next
  case (Plus a)
  have step: "\<And>st st'. st' \<in> set (rx a st) \<Longrightarrow> reaches (groups a) 0 st st'"
    using Plus.IH by (rule reaches_weaken) auto
  from Plus.prems obtain m where m: "m \<in> set (rx a st)" "st' \<in> set (star (rx a) m)"
    by (auto simp: rx_Plus)
  have "reaches (groups a) 0 m st'" using star_reaches [of "rx a" "groups a" st' m, OF step m(2)] .
  then show ?case using reaches_trans [OF Plus.IH [OF m(1)], of 0 st'] by simp
next
  case (Grp n a)
  then obtain m where m: "m \<in> set (rx a st)"
      "st' = ((fst m)(n := take (length (snd st) - length (snd m)) (snd st)), snd m)"
    by (auto simp: rx_Grp)
  show ?case using Grp.IH [OF m(1)] m(2) by (auto simp: reaches_def)
next
  case Eot
  then show ?case by (auto simp: reaches_def split: if_splits)
qed

lemma in_rx_CSet:
  "(c', s') \<in> set (rx (CSet its) (c, s)) \<longleftrightarrow> c' = c \<and> (\<exists>x. s = x # s' \<and> in_class its x)"
  by (cases s) auto

lemma in_rx_Lit:
  "(c', s') \<in> set (rx (Lit d) (c, s)) \<longleftrightarrow> c' = c \<and> s = d # s'"
  by (cases s) auto

lemma in_rx_Seq:
  "st'' \<in> set (rx (Seq a b) st) \<longleftrightarrow> (\<exists>m. m \<in> set (rx a st) \<and> st'' \<in> set (rx b m))"
  by auto

lemma in_rx_Alt:
  "st' \<in> set (rx (Alt a b) st) \<longleftrightarrow> st' \<in> set (rx a st) \<or> st' \<in> set (rx b st)"
  by auto

lemma in_rx_Opt:
  "st' \<in> set (rx (Opt a) st) \<longleftrightarrow> st' \<in> set (rx a st) \<or> st' = st"
  by auto

lemma in_rx_Grp:
  "(c', s') \<in> set (rx (Grp n a) (c, s)) \<longleftrightarrow>
     (\<exists>c''. (c'', s') \<in> set (rx a (c, s)) \<and> c' = c''(n := take (length s - length s') s))"
  by (force simp: rx_Grp image_iff)

lemma in_rx_Eot:
  "(c', s') \<in> set (rx Eot (c, s)) \<longleftrightarrow> c' = c \<and> s = [] \<and> s' = []"
  by auto

lemma rx_Star_CSet_Nil: "rx (Star (CSet its)) (c, []) = [(c, [])]"
  by (simp add: rx_Star star.simps)

lemma rx_Star_CSet_Cons:
  "rx (Star (CSet its)) (c, x # xs) =
     (if in_class its x then rx (Star (CSet its)) (c, xs) @ [(c, x # xs)] else [(c, x # xs)])"
  by (simp add: rx_Star star.simps [of _ "(c, x # xs)"])

lemma rx_Plus_CSet_Nil: "rx (Plus (CSet its)) (c, []) = []"
  by (simp add: rx_Plus)

lemma rx_Plus_CSet_Cons:
  "rx (Plus (CSet its)) (c, x # xs) = (if in_class its x then rx (Star (CSet its)) (c, xs) else [])"
  by (simp add: rx_Plus rx_Star)

lemma in_rx_Star_CSet:
  "(c', s') \<in> set (rx (Star (CSet its)) (c, s)) \<longleftrightarrow>
     c' = c \<and> (\<exists>p. s = p @ s' \<and> list_all (in_class its) p)"
proof (induction s)
  case Nil
  then show ?case by (auto simp: rx_Star_CSet_Nil)
next
  case (Cons x xs)
  show ?case
  proof (cases "in_class its x")
    case True
    show ?thesis
    proof
      assume "(c', s') \<in> set (rx (Star (CSet its)) (c, x # xs))"
      then consider "c' = c" "s' = x # xs" | "(c', s') \<in> set (rx (Star (CSet its)) (c, xs))"
        using True by (auto simp: rx_Star_CSet_Cons)
      then show "c' = c \<and> (\<exists>p. x # xs = p @ s' \<and> list_all (in_class its) p)"
      proof cases
        case 1
        then show ?thesis by auto
      next
        case 2
        then obtain p where "c' = c" "xs = p @ s'" "list_all (in_class its) p"
          using Cons.IH by auto
        then show ?thesis using True by (auto intro: exI [of _ "x # p"])
      qed
    next
      assume a: "c' = c \<and> (\<exists>p. x # xs = p @ s' \<and> list_all (in_class its) p)"
      then obtain p where p: "x # xs = p @ s'" "list_all (in_class its) p" by auto
      show "(c', s') \<in> set (rx (Star (CSet its)) (c, x # xs))"
      proof (cases p)
        case Nil
        then have "s' = x # xs" using p by simp
        then show ?thesis using a by (simp add: rx_Star_CSet_Cons)
      next
        case (Cons y q)
        then have "xs = q @ s'" "list_all (in_class its) q" using p by auto
        then have "(c', s') \<in> set (rx (Star (CSet its)) (c, xs))" using Cons.IH a by auto
        then show ?thesis using True by (simp add: rx_Star_CSet_Cons)
      qed
    qed
  next
    case False
    show ?thesis
    proof
      assume "(c', s') \<in> set (rx (Star (CSet its)) (c, x # xs))"
      then show "c' = c \<and> (\<exists>p. x # xs = p @ s' \<and> list_all (in_class its) p)"
        using False by (auto simp: rx_Star_CSet_Cons)
    next
      assume a: "c' = c \<and> (\<exists>p. x # xs = p @ s' \<and> list_all (in_class its) p)"
      then obtain p where p: "x # xs = p @ s'" "list_all (in_class its) p" by auto
      then have "p = []" using False by (cases p) auto
      then have "s' = x # xs" using p by simp
      then show "(c', s') \<in> set (rx (Star (CSet its)) (c, x # xs))"
        using a False by (simp add: rx_Star_CSet_Cons)
    qed
  qed
qed

lemma in_rx_Plus_CSet:
  "(c', s') \<in> set (rx (Plus (CSet its)) (c, s)) \<longleftrightarrow>
     c' = c \<and> (\<exists>p. p \<noteq> [] \<and> s = p @ s' \<and> list_all (in_class its) p)"
proof (cases s)
  case Nil
  then show ?thesis by (auto simp: rx_Plus_CSet_Nil)
next
  case (Cons x xs)
  show ?thesis
  proof
    assume "(c', s') \<in> set (rx (Plus (CSet its)) (c, s))"
    then have x: "in_class its x" and "(c', s') \<in> set (rx (Star (CSet its)) (c, xs))"
      unfolding Cons rx_Plus_CSet_Cons by (auto split: if_splits)
    then obtain p where "c' = c" "xs = p @ s'" "list_all (in_class its) p"
      by (auto simp: in_rx_Star_CSet)
    then show "c' = c \<and> (\<exists>p. p \<noteq> [] \<and> s = p @ s' \<and> list_all (in_class its) p)"
      using x Cons by (auto intro: exI [of _ "x # p"])
  next
    assume a: "c' = c \<and> (\<exists>p. p \<noteq> [] \<and> s = p @ s' \<and> list_all (in_class its) p)"
    then obtain p where p: "p \<noteq> []" "s = p @ s'" "list_all (in_class its) p" by auto
    then obtain q where q: "p = x # q" using Cons by (cases p) auto
    then have "(c', s') \<in> set (rx (Star (CSet its)) (c, xs))"
      using p a Cons by (auto simp: in_rx_Star_CSet)
    then show "(c', s') \<in> set (rx (Plus (CSet its)) (c, s))"
      unfolding Cons rx_Plus_CSet_Cons using p q by auto
  qed
qed

lemma in_class_d [simp]: "in_class [Rg (CHR ''0'') (CHR ''9'')] c = isdigit c"
  by (simp add: in_class_def isdigit_def)

lemma in_class_d_fun [simp]: "in_class [Rg (CHR ''0'') (CHR ''9'')] = isdigit"
  by (rule ext) simp

lemma of_char_zero: "(of_char c :: nat) = 48 \<longleftrightarrow> c = CHR ''0''"
proof -
  have "(of_char c :: nat) = of_char (CHR ''0'') \<longleftrightarrow> c = CHR ''0''" by (rule of_char_eq_iff)
  then show ?thesis by simp
qed

lemma in_class_19 [simp]: "in_class [Rg (CHR ''1'') (CHR ''9'')] c = (isdigit c \<and> c \<noteq> CHR ''0'')"
proof -
  have "CHR ''1'' \<le> c \<longleftrightarrow> CHR ''0'' \<le> c \<and> c \<noteq> CHR ''0''"
    using of_char_zero [of c] unfolding less_eq_char_def by auto
  then show ?thesis unfolding in_class_def isdigit_def by auto
qed

definition num_ok :: "string \<Rightarrow> bool" where
  "num_ok p = (p = ''0'' \<or> (p \<noteq> [] \<and> hd p \<noteq> CHR ''0'' \<and> list_all isdigit p))"

lemma in_rx_num:
  "(c', s') \<in> set (rx re_num (c, s)) \<longleftrightarrow> c' = c \<and> (\<exists>p. num_ok p \<and> s = p @ s')"
proof
  assume "(c', s') \<in> set (rx re_num (c, s))"
  then consider "c' = c" "s = CHR ''0'' # s'"
    | x p where "c' = c" "isdigit x" "x \<noteq> CHR ''0''" "list_all isdigit p" "s = x # p @ s'"
    unfolding re_num_def in_rx_Alt in_rx_Lit in_rx_Seq
    by (auto simp: in_rx_CSet in_rx_Star_CSet)
  then show "c' = c \<and> (\<exists>p. num_ok p \<and> s = p @ s')"
  proof cases
    case 1
    then show ?thesis by (auto simp: num_ok_def intro: exI [of _ "''0''"])
  next
    case 2
    then show ?thesis by (auto simp: num_ok_def intro!: exI [of _ "x # p"])
  qed
next
  assume a: "c' = c \<and> (\<exists>p. num_ok p \<and> s = p @ s')"
  then obtain p where p: "num_ok p" "s = p @ s'" by auto
  show "(c', s') \<in> set (rx re_num (c, s))"
  proof (cases "p = ''0''")
    case True
    then show ?thesis using p a by (simp add: re_num_def in_rx_Alt in_rx_Lit)
  next
    case False
    then obtain x q where "p = x # q" "x \<noteq> CHR ''0''" "isdigit x" "list_all isdigit q"
      using p(1) by (cases p) (auto simp: num_ok_def)
    then show ?thesis
      using p a unfolding re_num_def in_rx_Alt in_rx_Seq
      by (auto simp: in_rx_CSet in_rx_Star_CSet)
  qed
qed

lemma step_num:
  "st' \<in> set (rx (Grp n re_num) st) \<longleftrightarrow>
     (\<exists>p. num_ok p \<and> snd st = p @ snd st' \<and> fst st' = (fst st)(n := p))"
  by (cases st; cases st') (auto simp: in_rx_Grp in_rx_num)

lemma step_grp:
  "st' \<in> set (rx (Grp n a) st) \<longleftrightarrow>
     (\<exists>c''. (c'', snd st') \<in> set (rx a st)
        \<and> fst st' = c''(n := take (length (snd st) - length (snd st')) (snd st)))"
  by (cases st; cases st') (simp add: in_rx_Grp)

lemma step_lit:
  "st' \<in> set (rx (Lit d) st) \<longleftrightarrow> snd st = d # snd st' \<and> fst st' = fst st"
  by (cases st; cases st') (auto simp: in_rx_Lit)

lemma step_eot: "st' \<in> set (rx Eot st) \<longleftrightarrow> st' = st \<and> snd st = []"
  by (cases st; cases st') (auto simp: in_rx_Eot)

lemma step_opt_num:
  "st' \<in> set (rx (Opt (Seq (Lit d) (Grp n re_num))) st) \<longleftrightarrow>
     st' = st \<or> (\<exists>p. num_ok p \<and> snd st = d # p @ snd st' \<and> fst st' = (fst st)(n := p))"
  unfolding in_rx_Opt in_rx_Seq step_lit step_num
  by (cases st; cases st') auto

lemma reaches_no_groups:
  "reaches {} k st st' \<Longrightarrow> fst st' = fst st \<and> (\<exists>p. snd st = p @ snd st' \<and> k \<le> length p)"
  unfolding reaches_def by auto

lemma step_opt_grp:
  assumes "st' \<in> set (rx (Opt (Seq (Lit d) (Grp n r))) st)" and "groups r = {}" and "1 \<le> min_len r"
  shows "st' = st \<or> (\<exists>p. p \<noteq> [] \<and> snd st = d # p @ snd st' \<and> fst st' = (fst st)(n := p))"
proof (cases "st' = st")
  case True
  then show ?thesis by simp
next
  case False
  then obtain m where m: "snd st = d # snd m" "fst m = fst st" "st' \<in> set (rx (Grp n r) m)"
    using assms(1) unfolding in_rx_Opt in_rx_Seq step_lit by auto
  then obtain c'' where c: "(c'', snd st') \<in> set (rx r m)"
      "fst st' = c''(n := take (length (snd m) - length (snd st')) (snd m))"
    unfolding step_grp by auto
  have "reaches {} (min_len r) m (c'', snd st')"
    using rx_reaches [OF c(1)] assms(2) by simp
  then obtain p where p: "c'' = fst m" "snd m = p @ snd st'" "min_len r \<le> length p"
    using reaches_no_groups by fastforce
  then have "p \<noteq> []" using assms(3) by auto
  then show ?thesis using p c(2) m by auto
qed

lemma groups_pre_inner:
  "groups (Seq re_pre_seg (Star (Seq (Lit d) re_pre_seg))) = {}"
  "groups (Seq re_tol_seg (Star (Seq (Lit d) re_tol_seg))) = {}"
  "groups (Seq (Plus cls_an) (Star (Seq (Lit d) (Plus cls_an)))) = {}"
  by (simp_all add: re_pre_seg_def re_tol_seg_def)

lemma min_len_pre_inner:
  "1 \<le> min_len (Seq re_pre_seg (Star (Seq (Lit d) re_pre_seg)))"
  "1 \<le> min_len (Seq re_tol_seg (Star (Seq (Lit d) re_tol_seg)))"
  "1 \<le> min_len (Seq (Plus cls_an) (Star (Seq (Lit d) (Plus cls_an))))"
  by (simp_all add: re_pre_seg_def re_tol_seg_def)

lemma step_pre_strict:
  "st' \<in> set (rx (re_pre re_pre_seg) st) \<Longrightarrow>
     st' = st \<or> (\<exists>p. p \<noteq> [] \<and> snd st = CHR ''-'' # p @ snd st'
                   \<and> fst st' = (fst st)(''prerelease'' := p))"
  unfolding re_pre_def by (rule step_opt_grp [OF _ groups_pre_inner(1) min_len_pre_inner(1)])

lemma step_pre_tol:
  "st' \<in> set (rx (re_pre re_tol_seg) st) \<Longrightarrow>
     st' = st \<or> (\<exists>p. p \<noteq> [] \<and> snd st = CHR ''-'' # p @ snd st'
                   \<and> fst st' = (fst st)(''prerelease'' := p))"
  unfolding re_pre_def by (rule step_opt_grp [OF _ groups_pre_inner(2) min_len_pre_inner(2)])

lemma step_build:
  "st' \<in> set (rx re_build st) \<Longrightarrow>
     st' = st \<or> (\<exists>p. p \<noteq> [] \<and> snd st = CHR ''+'' # p @ snd st'
                   \<and> fst st' = (fst st)(''buildmetadata'' := p))"
  unfolding re_build_def by (rule step_opt_grp [OF _ groups_pre_inner(3) min_len_pre_inner(3)])

lemma rx_SeqE:
  assumes "st'' \<in> set (rx (Seq a b) st)"
  obtains m where "m \<in> set (rx a st)" and "st'' \<in> set (rx b m)"
  using assms by auto

definition assemble :: "captures \<Rightarrow> string" where
  "assemble parts =
     parts ''major'' @ ''.'' @ parts ''minor'' @ ''.'' @ parts ''patch''
       @ (if parts ''revision'' = [] then [] else ''.'' @ parts ''revision'')
       @ (if parts ''prerelease'' = [] then [] else ''-'' @ parts ''prerelease'')
       @ (if parts ''buildmetadata'' = [] then [] else ''+'' @ parts ''buildmetadata'')"

lemma num_ok_nonempty: "num_ok p \<Longrightarrow> p \<noteq> []"
  by (auto simp: num_ok_def)

lemma strict_sound_state:
  assumes "st' \<in> set (rx kongVersionRegexFormat (\<lambda>n. [], s))"
  shows "snd st' = [] \<and> s = assemble (fst st')
         \<and> num_ok (fst st' ''major'') \<and> num_ok (fst st' ''minor'') \<and> num_ok (fst st' ''patch'')
         \<and> (fst st' ''revision'' = [] \<or> num_ok (fst st' ''revision''))"
proof -
  from assms obtain s1 s2 s3 s4 s5 s6 s7 s8 where
    1: "s1 \<in> set (rx (Grp ''major'' re_num) (\<lambda>n. [], s))" and
    2: "s2 \<in> set (rx (Lit (CHR ''.'')) s1)" and
    3: "s3 \<in> set (rx (Grp ''minor'' re_num) s2)" and
    4: "s4 \<in> set (rx (Lit (CHR ''.'')) s3)" and
    5: "s5 \<in> set (rx (Grp ''patch'' re_num) s4)" and
    6: "s6 \<in> set (rx (Opt (Seq (Lit (CHR ''.'')) (Grp ''revision'' re_num))) s5)" and
    7: "s7 \<in> set (rx (re_pre re_pre_seg) s6)" and
    8: "s8 \<in> set (rx re_build s7)" and
    9: "st' \<in> set (rx Eot s8)"
    unfolding kongVersionRegexFormat_def by (elim rx_SeqE)
  from 1 obtain M where M: "num_ok M" "s = M @ snd s1" "fst s1 = (\<lambda>n. [])(''major'' := M)"
    unfolding step_num by auto
  from 2 have d1: "snd s1 = CHR ''.'' # snd s2" "fst s2 = fst s1" unfolding step_lit by auto
  from 3 obtain m where m: "num_ok m" "snd s2 = m @ snd s3" "fst s3 = (fst s2)(''minor'' := m)"
    unfolding step_num by auto
  from 4 have d2: "snd s3 = CHR ''.'' # snd s4" "fst s4 = fst s3" unfolding step_lit by auto
  from 5 obtain p where p: "num_ok p" "snd s4 = p @ snd s5" "fst s5 = (fst s4)(''patch'' := p)"
    unfolding step_num by auto
  from 6 have r: "s6 = s5 \<or> (\<exists>r. num_ok r \<and> snd s5 = CHR ''.'' # r @ snd s6
      \<and> fst s6 = (fst s5)(''revision'' := r))"
    unfolding step_opt_num .
  note q = step_pre_strict [OF 7]
  note b = step_build [OF 8]
  from 9 have e: "st' = s8" "snd s8 = []" unfolding step_eot by auto
  have c5: "fst s5 = (\<lambda>n. [])(''major'' := M, ''minor'' := m, ''patch'' := p)"
    using M m p d1 d2 by simp
  have s5: "s = M @ ''.'' @ m @ ''.'' @ p @ snd s5"
    using M m p d1 d2 by simp
  have nn: "M \<noteq> []" "m \<noteq> []" "p \<noteq> []" using M m p num_ok_nonempty by auto
  show ?thesis
    using r q b e c5 s5 M(1) m(1) p(1) num_ok_nonempty
    by (elim disjE exE conjE) (simp_all add: assemble_def)
qed

lemma FindStringSubmatch_SomeD:
  "FindStringSubmatch r s = Some parts \<Longrightarrow> \<exists>st. st \<in> set (rx r (\<lambda>n. [], s)) \<and> fst st = parts"
  by (auto simp: FindStringSubmatch_def split: list.splits)

lemma strict_sound:
  assumes "FindStringSubmatch kongVersionRegexFormat s = Some parts"
  shows "s = assemble parts
         \<and> num_ok (parts ''major'') \<and> num_ok (parts ''minor'') \<and> num_ok (parts ''patch'')
         \<and> (parts ''revision'' = [] \<or> num_ok (parts ''revision''))"
  using FindStringSubmatch_SomeD [OF assms] strict_sound_state by blast

section \<open>Decimal numbers\<close>

lemma member_numbers: "\<forall>c. (c \<in> set numbers) = isdigit c"
  by code_simp

lemma member_alphanum:
  "\<forall>c. (c \<in> set alphanum) =
     in_class [Rg (CHR ''0'') (CHR ''9''), Rg (CHR ''a'') (CHR ''z''),
               Rg (CHR ''A'') (CHR ''Z''), Ch (CHR ''-'')] c"
  by code_simp

lemma isdigit_range: "isdigit c \<longleftrightarrow> 48 \<le> (of_char c :: nat) \<and> (of_char c :: nat) \<le> 57"
  by (simp add: isdigit_def less_eq_char_def)

lemma digit_char_val: "isdigit c \<Longrightarrow> digit_char (digit_val c) = c"
  by (simp add: isdigit_range digit_char_def digit_val_def)

lemma digit_val_lt: "isdigit c \<Longrightarrow> digit_val c < 10"
  by (auto simp: isdigit_range digit_val_def)

lemma digit_val_char: "d < 10 \<Longrightarrow> digit_val (digit_char d) = d"
  by (simp add: digit_char_def digit_val_def)

lemma isdigit_digit_char: "d < 10 \<Longrightarrow> isdigit (digit_char d)"
  by (simp add: isdigit_range digit_char_def)

lemma digit_val_zero: "isdigit c \<Longrightarrow> digit_val c = 0 \<longleftrightarrow> c = CHR ''0''"
  using of_char_zero [of c] by (auto simp: isdigit_range digit_val_def)


definition dec_step :: "nat \<Rightarrow> char \<Rightarrow> nat" where
  "dec_step a c = a * 10 + digit_val c"

definition dec :: "string \<Rightarrow> nat" where
  "dec s = foldl dec_step 0 s"

lemma foldl_dec_step_ge: "n \<le> foldl dec_step n ds"
proof (induction ds arbitrary: n)
  case (Cons c cs)
  have "n \<le> dec_step n c" by (simp add: dec_step_def)
  also have "\<dots> \<le> foldl dec_step (dec_step n c) cs" by (rule Cons.IH)
  finally show ?case by simp
qed simp

lemma parseUint_loop_digits:
  "list_all isdigit ds \<Longrightarrow> n \<le> maxUint64 \<Longrightarrow>
     parseUint_loop ds n =
       (if foldl dec_step n ds \<le> maxUint64 then Inr (foldl dec_step n ds) else Inl ErrRange)"
proof (induction ds arbitrary: n)
  case Nil
  then show ?case by simp
next
  case (Cons c cs)
  have d: "isdigit c" and ds: "list_all isdigit cs" using Cons.prems(1) by auto
  have ge: "dec_step n c \<le> foldl dec_step (dec_step n c) cs" by (rule foldl_dec_step_ge)
  show ?case
  proof (cases "n \<ge> maxUint64 div 10 + 1")
    case True
    then have "dec_step n c > maxUint64" by (simp add: dec_step_def maxUint64_def)
    then have "\<not> foldl dec_step (dec_step n c) cs \<le> maxUint64" using ge by simp
    moreover have "parseUint_loop (c # cs) n = Inl ErrRange" using True d by simp
    ultimately show ?thesis by simp
  next
    case False
    show ?thesis
    proof (cases "n * 10 + digit_val c > maxUint64")
      case True
      then have "\<not> foldl dec_step (dec_step n c) cs \<le> maxUint64"
        using ge by (simp add: dec_step_def)
      moreover have "parseUint_loop (c # cs) n = Inl ErrRange"
        using True False d by (simp add: Let_def)
      ultimately show ?thesis by simp
    next
      case b: False
      have "parseUint_loop (c # cs) n = parseUint_loop cs (dec_step n c)"
        using b False d by (simp add: dec_step_def Let_def)
      moreover have "dec_step n c \<le> maxUint64" using b by (simp add: dec_step_def)
      ultimately show ?thesis using Cons.IH [OF ds, of "dec_step n c"] by simp
    qed
  qed
qed

lemma parseUint_loop_Inr:
  "parseUint_loop ds n = Inr m \<Longrightarrow> list_all isdigit ds"
  by (induction ds arbitrary: n) (auto simp: Let_def split: if_splits)

lemma ParseUint_Inr:
  "ParseUint s = Inr w \<longleftrightarrow>
     s \<noteq> [] \<and> list_all isdigit s \<and> dec s \<le> maxUint64 \<and> w = word_of_nat (dec s)"
proof (cases "s \<noteq> [] \<and> list_all isdigit s")
  case True
  then show ?thesis
    by (auto simp: ParseUint_def parseUint_loop_digits dec_def split: sum.splits)
next
  case False
  then show ?thesis
    using parseUint_loop_Inr [of s 0]
    by (auto simp: ParseUint_def split: sum.splits)
qed

lemma ParseUint_digits:
  "s \<noteq> [] \<Longrightarrow> list_all isdigit s \<Longrightarrow>
     ParseUint s = (if dec s \<le> maxUint64 then Inr (word_of_nat (dec s)) else Inl ErrRange)"
  by (simp add: ParseUint_def parseUint_loop_digits dec_def)

lemma unat_dec: "dec s \<le> maxUint64 \<Longrightarrow> unat (word_of_nat (dec s) :: 64 word) = dec s"
  by (simp add: unat_of_nat maxUint64_def)

lemma dec_snoc: "dec (ds @ [c]) = dec ds * 10 + digit_val c"
  by (simp add: dec_def dec_step_def)

lemma FormatUint_step:
  "d < 10 \<Longrightarrow> 0 < m \<Longrightarrow> FormatUint (m * 10 + d) = FormatUint m @ [digit_char d]"
  by (subst FormatUint.simps) simp

lemma FormatUint_digit: "d < 10 \<Longrightarrow> FormatUint d = [digit_char d]"
  by (subst FormatUint.simps) simp

lemma FormatUint_dec_pos:
  "ds \<noteq> [] \<Longrightarrow> hd ds \<noteq> CHR ''0'' \<Longrightarrow> list_all isdigit ds
   \<Longrightarrow> 0 < dec ds \<and> FormatUint (dec ds) = ds"
proof (induction ds rule: rev_induct)
  case Nil
  then show ?case by simp
next
  case (snoc c cs)
  have c: "isdigit c" and cs: "list_all isdigit cs" using snoc.prems by auto
  show ?case
  proof (cases "cs = []")
    case True
    then have "c \<noteq> CHR ''0''" using snoc.prems by simp
    then have "0 < digit_val c" using digit_val_zero [OF c] by simp
    then show ?thesis
      using True c
      by (simp add: dec_def dec_step_def FormatUint_digit digit_val_lt digit_char_val)
  next
    case False
    then have "hd cs \<noteq> CHR ''0''" using snoc.prems by simp
    then have ih: "0 < dec cs" "FormatUint (dec cs) = cs" using snoc.IH False cs by auto
    show ?thesis
      using ih c by (simp add: dec_snoc FormatUint_step digit_val_lt digit_char_val)
  qed
qed

lemma dec_zero: "dec ''0'' = 0"
  by (simp add: dec_def dec_step_def digit_val_def)

lemma FormatUint_zero: "FormatUint 0 = ''0''"
  using digit_char_val [of "CHR ''0''"]
  by (subst FormatUint.simps) (simp add: isdigit_def digit_val_def)

lemma FormatUint_dec: "num_ok ds \<Longrightarrow> FormatUint (dec ds) = ds"
  unfolding num_ok_def using FormatUint_dec_pos [of ds] by (auto simp: dec_zero FormatUint_zero)

lemma num_ok_digits: "num_ok ds \<Longrightarrow> ds \<noteq> [] \<and> list_all isdigit ds"
  by (auto simp: num_ok_def isdigit_def)

lemma ParseUint_Format:
  "num_ok s \<Longrightarrow> ParseUint s = Inr w \<Longrightarrow> FormatUint (unat w) = s"
  by (simp add: ParseUint_Inr unat_dec FormatUint_dec)

lemma isdigit_not_sign: "isdigit c \<Longrightarrow> c \<noteq> CHR ''+'' \<and> c \<noteq> CHR ''-''"
  by (auto simp: isdigit_range)

lemma ParseInt_digits:
  assumes "s \<noteq> []" and "list_all isdigit s"
  shows "ParseInt s = (if dec s < 2 ^ 63 then Inr (word_of_nat (dec s)) else Inl ErrRange)"
proof -
  have h: "hd s \<noteq> CHR ''+''" "hd s \<noteq> CHR ''-''"
    using assms isdigit_not_sign [of "hd s"] by (cases s; simp)+
  have m: "(2::nat) ^ 63 \<le> maxUint64" by (simp add: maxUint64_def)
  show ?thesis
  proof (cases "dec s \<le> maxUint64")
    case True
    then show ?thesis
      using assms h by (simp add: ParseInt_def ParseUint_digits unat_dec Let_def)
  next
    case False
    then show ?thesis
      using assms h m by (simp add: ParseInt_def ParseUint_digits Let_def)
  qed
qed

lemma sint_dec:
  "dec s < 2 ^ 63 \<Longrightarrow> sint (word_of_nat (dec s) :: 64 word) = int (dec s)"
  by (simp add: signed_of_nat signed_take_bit_int_eq_self)

lemma ParseInt_Format:
  assumes "num_ok s" and "ParseInt s = Inr w"
  shows "0 \<le> sint w \<and> FormatInt (sint w) = s \<and> w \<noteq> - 1"
proof -
  have d: "s \<noteq> []" "list_all isdigit s" using num_ok_digits [OF assms(1)] by auto
  have b: "dec s < 2 ^ 63" and w: "w = word_of_nat (dec s)"
    using assms(2) unfolding ParseInt_digits [OF d] by (auto split: if_splits)
  have s: "sint w = int (dec s)" unfolding w by (rule sint_dec [OF b])
  have "w \<noteq> - 1" using s by (auto simp: )
  then show ?thesis using s by (simp add: FormatInt_def FormatUint_dec [OF assms(1)])
qed

section \<open>The steps of Parse\<close>

lemma Split_nonempty: "Split p sep \<noteq> []"
  by (induction p) (auto split: list.splits)

lemma Split_join: "hd (Split p sep) @ concat (map ((#) sep) (tl (Split p sep))) = p"
  by (induction p) (auto split: list.splits simp: Split_nonempty)

lemma in_set_numbers: "c \<in> set numbers \<longleftrightarrow> isdigit c"
  using member_numbers by blast

lemma in_set_alphanum:
  "c \<in> set alphanum \<longleftrightarrow>
     in_class [Rg (CHR ''0'') (CHR ''9''), Rg (CHR ''a'') (CHR ''z''),
               Rg (CHR ''A'') (CHR ''Z''), Ch (CHR ''-'')] c"
  using member_alphanum by blast

lemma containsOnly_numbers: "containsOnly s numbers = list_all isdigit s"
  by (simp add: containsOnly_def in_set_numbers)

lemma containsOnly_alphanum:
  "containsOnly s alphanum =
     list_all (in_class [Rg (CHR ''0'') (CHR ''9''), Rg (CHR ''a'') (CHR ''z''),
               Rg (CHR ''A'') (CHR ''Z''), Ch (CHR ''-'')]) s"
  by (simp add: containsOnly_def in_set_alphanum)

lemma isdigit_alphanum: "isdigit c \<Longrightarrow> c \<in> set alphanum"
  unfolding in_set_alphanum by (simp add: in_class_def isdigit_def)

lemma containsOnly_numbers_alphanum: "containsOnly s numbers \<Longrightarrow> containsOnly s alphanum"
  unfolding containsOnly_numbers unfolding containsOnly_def
  by (induction s) (auto simp: isdigit_alphanum)

lemma NewPRVersion_Inr:
  assumes "NewPRVersion s = Inr pr"
  shows "PRVersion_String pr = s \<and> s \<noteq> [] \<and> containsOnly s alphanum
         \<and> (IsNum pr \<or> VersionStr pr = s)"
proof (cases "containsOnly s numbers")
  case True
  then have d: "list_all isdigit s" by (simp add: containsOnly_numbers)
  from assms True obtain num where
    n: "s \<noteq> []" "\<not> hasLeadingZeroes s" "ParseUint s = Inr num"
       "pr = \<lparr>VersionStr = [], VersionNum = num, IsNum = True\<rparr>"
    by (auto simp: NewPRVersion_def split: if_splits sum.splits)
  have "num_ok s"
  proof (cases "hd s = CHR ''0''")
    case z: True
    then have "length s = 1" using n(1,2) by (cases s) (auto simp: hasLeadingZeroes_def)
    then show ?thesis using z by (cases s) (auto simp: num_ok_def)
  next
    case False
    then show ?thesis using n(1) d by (simp add: num_ok_def)
  qed
  then have "FormatUint (unat num) = s" using n(3) by (rule ParseUint_Format)
  then show ?thesis
    using n True by (simp add: PRVersion_String_def containsOnly_numbers_alphanum)
next
  case False
  then show ?thesis
    using assms by (auto simp: NewPRVersion_def PRVersion_String_def split: if_splits)
qed

lemma parse_prerelease_Inr:
  "parse_prerelease xs = Inr ps \<Longrightarrow>
     map PRVersion_String ps = xs \<and> validate_pre ps = None
     \<and> list_all (\<lambda>x. x \<noteq> [] \<and> containsOnly x alphanum) xs"
proof (induction xs arbitrary: ps)
  case Nil
  then show ?case by simp
next
  case (Cons x xs)
  from Cons.prems obtain p ps' where
    p: "NewPRVersion x = Inr p" "parse_prerelease xs = Inr ps'" "ps = p # ps'"
    by (auto split: sum.splits)
  show ?case using NewPRVersion_Inr [OF p(1)] Cons.IH [OF p(2)] p(3) by auto
qed

lemma parse_build_Inr:
  "parse_build xs = Inr bs \<Longrightarrow>
     bs = xs \<and> validate_build bs = None \<and> list_all (\<lambda>x. x \<noteq> [] \<and> containsOnly x alphanum) xs"
proof (induction xs arbitrary: bs)
  case Nil
  then show ?case by simp
next
  case (Cons x xs)
  from Cons.prems obtain bs' where
    p: "x \<noteq> []" "containsOnly x alphanum" "parse_build xs = Inr bs'" "bs = x # bs'"
    by (auto split: sum.splits if_splits)
  show ?case using Cons.IH [OF p(3)] p by auto
qed

lemma Parse_Inr:
  assumes "Parse s = Inr v"
  obtains parts where
    "FindStringSubmatch kongVersionRegexFormat s = Some parts"
    "ParseUint (parts ''major'') = Inr (Major v)"
    "ParseUint (parts ''minor'') = Inr (Minor v)"
    "ParseUint (parts ''patch'') = Inr (Patch v)"
    "(if parts ''revision'' = [] then Inr (- 1) else ParseInt (parts ''revision'')) = Inr (Revision v)"
    "parse_prerelease (if parts ''prerelease'' = [] then [] else Split (parts ''prerelease'') (CHR ''.''))
       = Inr (Pre v)"
    "parse_build (if parts ''buildmetadata'' = [] then [] else Split (parts ''buildmetadata'') (CHR ''.''))
       = Inr (Build v)"
  using assms unfolding Parse_def Let_def
  by (auto split: if_splits option.splits sum.splits)

lemma append_single: "(@) [c] = (#) c"
  by (rule ext) simp

lemma join_Split_map:
  assumes "map f ps = Split p sep"
  shows "ps \<noteq> [] \<and> f (hd ps) @ concat (map (\<lambda>x. [sep] @ f x) (tl ps)) = p"
proof -
  have ne: "ps \<noteq> []" using assms Split_nonempty [of p sep] by auto
  have "f (hd ps) = hd (Split p sep)" using ne assms by (simp flip: hd_map)
  moreover have "map (\<lambda>x. [sep] @ f x) (tl ps) = map ((#) sep) (tl (Split p sep))"
  proof -
    have "map ((#) sep) (tl (map f ps)) = map ((#) sep) (map f (tl ps))" by (simp add: map_tl)
    then show ?thesis unfolding assms by simp
  qed
  ultimately show ?thesis using ne Split_join [of p sep] by simp
qed

lemma Version_String_parts:
  assumes s: "FindStringSubmatch kongVersionRegexFormat s = Some parts"
    and "ParseUint (parts ''major'') = Inr (Major v)"
    and "ParseUint (parts ''minor'') = Inr (Minor v)"
    and "ParseUint (parts ''patch'') = Inr (Patch v)"
    and r: "(if parts ''revision'' = [] then Inr (- 1) else ParseInt (parts ''revision''))
            = Inr (Revision v)"
    and p: "parse_prerelease
             (if parts ''prerelease'' = [] then [] else Split (parts ''prerelease'') (CHR ''.''))
            = Inr (Pre v)"
    and b: "parse_build
             (if parts ''buildmetadata'' = [] then [] else Split (parts ''buildmetadata'') (CHR ''.''))
            = Inr (Build v)"
  shows "Version_String v = s"
proof -
  note sh = strict_sound [OF s]
  have n: "FormatUint (unat (Major v)) = parts ''major''"
    "FormatUint (unat (Minor v)) = parts ''minor''"
    "FormatUint (unat (Patch v)) = parts ''patch''"
    using sh assms(2-4) by (simp_all add: ParseUint_Format)
  have rv: "(if sint (Revision v) \<ge> 0 then ''.'' @ FormatInt (sint (Revision v)) else [])
        = (if parts ''revision'' = [] then [] else ''.'' @ parts ''revision'')"
  proof (cases "parts ''revision'' = []")
    case True
    then have "Revision v = - 1" using r by simp
    then show ?thesis using True by simp
  next
    case False
    then have "num_ok (parts ''revision'')" "ParseInt (parts ''revision'') = Inr (Revision v)"
      using sh r by auto
    then show ?thesis using False ParseInt_Format by auto
  qed
  have pv: "(if length (Pre v) > 0
          then ''-'' @ PRVersion_String (hd (Pre v))
                 @ concat (map (\<lambda>pre. ''.'' @ PRVersion_String pre) (tl (Pre v)))
          else [])
        = (if parts ''prerelease'' = [] then [] else ''-'' @ parts ''prerelease'')"
  proof (cases "parts ''prerelease'' = []")
    case True
    then have "Pre v = []" using p by simp
    then show ?thesis using True by simp
  next
    case False
    then have "map PRVersion_String (Pre v) = Split (parts ''prerelease'') (CHR ''.'')"
      using p parse_prerelease_Inr by auto
    from join_Split_map [OF this] show ?thesis using False by simp
  qed
  have bv: "(if length (Build v) > 0
          then ''+'' @ hd (Build v) @ concat (map (\<lambda>build. ''.'' @ build) (tl (Build v)))
          else [])
        = (if parts ''buildmetadata'' = [] then [] else ''+'' @ parts ''buildmetadata'')"
  proof (cases "parts ''buildmetadata'' = []")
    case True
    then have "Build v = []" using b by simp
    then show ?thesis using True by simp
  next
    case False
    then have "map (\<lambda>x. x) (Build v) = Split (parts ''buildmetadata'') (CHR ''.'')"
      using b parse_build_Inr by auto
    from join_Split_map [OF this] show ?thesis using False by (simp add: append_single)
  qed
  have "Version_String v = assemble parts"
    unfolding Version_String_def assemble_def n rv pv bv by simp
  then show ?thesis using sh by simp
qed

lemma Parse_example:
  "Parse ''1.2.3.4-alpha.1+b.01'' = Inr
     \<lparr>Major = 1, Minor = 2, Patch = 3, Revision = 4,
      Pre = [\<lparr>VersionStr = ''alpha'', VersionNum = 0, IsNum = False\<rparr>,
             \<lparr>VersionStr = [], VersionNum = 1, IsNum = True\<rparr>],
      Build = [''b'', ''01'']\<rparr>"
  by code_simp

section \<open>Short forms in tolerant parsing\<close>

lemma digits_split_unique:
  "list_all isdigit a \<Longrightarrow> list_all isdigit b
   \<Longrightarrow> u = [] \<or> \<not> isdigit (hd u) \<Longrightarrow> v = [] \<or> \<not> isdigit (hd v)
   \<Longrightarrow> a @ u = b @ v \<Longrightarrow> a = b \<and> u = v"
proof (induction a arbitrary: b)
  case Nil
  then show ?case by (cases b) auto
next
  case (Cons x a)
  show ?case
  proof (cases b)
    case Nil
    then show ?thesis using Cons.prems by (cases v) auto
  next
    case (Cons y b')
    then have "a = b' \<and> u = v" using Cons.IH [of b'] Cons.prems by auto
    then show ?thesis using Cons Cons.prems by auto
  qed
qed

lemma not_digit_marks:
  "\<not> isdigit (CHR ''.'')" "\<not> isdigit (CHR ''-'')" "\<not> isdigit (CHR ''+'')"
  by (simp_all add: isdigit_range)

lemma trim_zeroes_Nil: "trim_zeroes [] = []"
  by (simp add: trim_zeroes_def)

lemma trim_zeroes_nonempty: "x \<noteq> [] \<Longrightarrow> trim_zeroes x \<noteq> []"
  by (auto simp: trim_zeroes_def Let_def)

lemma trim_zeroes_num_ok:
  assumes "x \<noteq> []" and "list_all isdigit x"
  shows "num_ok (trim_zeroes x)"
proof (cases "length x > 1")
  case True
  let ?t = "dropWhile (\<lambda>c. c \<in> set ''0'') x"
  show ?thesis
  proof (cases "?t = []")
    case e: True
    then show ?thesis using True by (simp add: trim_zeroes_def TrimLeft_def num_ok_def)
  next
    case False
    then have "hd ?t \<notin> set ''0''" using hd_dropWhile [of "\<lambda>c. c \<in> set ''0''" x] by blast
    moreover have "list_all isdigit ?t"
      using assms(2) set_dropWhileD [of _ "\<lambda>c. c \<in> set ''0''" x] by (auto simp: list_all_iff)
    ultimately show ?thesis
      using True False by (simp add: trim_zeroes_def TrimLeft_def num_ok_def Let_def)
  qed
next
  case False
  then obtain c where "x = [c]" using assms(1) by (cases x) auto
  then show ?thesis using assms(2) by (auto simp: trim_zeroes_def num_ok_def)
qed

text \<open>
  The text that \<open>ParseTolerant\<close> builds from the four numeric fields when there is no
  suffix: \<open>major.minor.patch\<close>, then \<open>.revision\<close> when the revision is not empty.
\<close>

definition numeric_text :: "string \<Rightarrow> string \<Rightarrow> string \<Rightarrow> string \<Rightarrow> string" where
  "numeric_text M m p r = M @ ''.'' @ m @ ''.'' @ p @ (if r = [] then [] else ''.'' @ r)"

lemma rx_Opt_skip: "st \<in> set (rx (Opt a) st)"
  by simp

lemma step_num_intro:
  "num_ok q \<Longrightarrow> (c(n := q), t) \<in> set (rx (Grp n re_num) (c, q @ t))"
  unfolding step_num by (rule exI [of _ q]) simp

lemma step_lit_intro: "(c, t) \<in> set (rx (Lit d) (c, d # t))"
  unfolding step_lit by simp

lemma step_opt_num_intro:
  "num_ok q \<Longrightarrow> (c(n := q), t) \<in> set (rx (Opt (Seq (Lit d) (Grp n re_num))) (c, d # q @ t))"
  unfolding step_opt_num by (rule disjI2, rule exI [of _ q]) simp

lemma strict_numeric_match:
  assumes "num_ok M" and "num_ok m" and "num_ok p" and "r = [] \<or> num_ok r"
  shows "\<exists>c. (c, []) \<in> set (rx kongVersionRegexFormat (\<lambda>n. [], numeric_text M m p r))"
proof -
  let ?c0 = "\<lambda>n::string. ([]::string)"
  let ?c1 = "?c0(''major'' := M)"
  let ?c2 = "?c1(''minor'' := m)"
  let ?c3 = "?c2(''patch'' := p)"
  obtain T c4 where T: "numeric_text M m p r = M @ CHR ''.'' # m @ CHR ''.'' # p @ T"
    and 6: "(c4, []) \<in> set (rx (Opt (Seq (Lit (CHR ''.'')) (Grp ''revision'' re_num))) (?c3, T))"
  proof (cases "r = []")
    case True
    have "numeric_text M m p r = M @ CHR ''.'' # m @ CHR ''.'' # p @ []"
      using True by (simp add: numeric_text_def)
    moreover have "(?c3, []) \<in> set (rx (Opt (Seq (Lit (CHR ''.'')) (Grp ''revision'' re_num))) (?c3, []))"
      by (rule rx_Opt_skip)
    ultimately show ?thesis by (rule that)
  next
    case False
    then have r: "num_ok r" using assms(4) by simp
    have "numeric_text M m p r = M @ CHR ''.'' # m @ CHR ''.'' # p @ (CHR ''.'' # r @ [])"
      using False by (simp add: numeric_text_def)
    moreover have "(?c3(''revision'' := r), [])
        \<in> set (rx (Opt (Seq (Lit (CHR ''.'')) (Grp ''revision'' re_num))) (?c3, CHR ''.'' # r @ []))"
      by (rule step_opt_num_intro [OF r])
    ultimately show ?thesis by (rule that)
  qed
  have 1: "(?c1, CHR ''.'' # m @ CHR ''.'' # p @ T)
      \<in> set (rx (Grp ''major'' re_num) (?c0, numeric_text M m p r))"
    unfolding T by (rule step_num_intro [OF assms(1)])
  have 2: "(?c1, m @ CHR ''.'' # p @ T) \<in> set (rx (Lit (CHR ''.'')) (?c1, CHR ''.'' # m @ CHR ''.'' # p @ T))"
    by (rule step_lit_intro)
  have 3: "(?c2, CHR ''.'' # p @ T) \<in> set (rx (Grp ''minor'' re_num) (?c1, m @ CHR ''.'' # p @ T))"
    by (rule step_num_intro [OF assms(2)])
  have 4: "(?c2, p @ T) \<in> set (rx (Lit (CHR ''.'')) (?c2, CHR ''.'' # p @ T))"
    by (rule step_lit_intro)
  have 5: "(?c3, T) \<in> set (rx (Grp ''patch'' re_num) (?c2, p @ T))"
    by (rule step_num_intro [OF assms(3)])
  have 7: "(c4, []) \<in> set (rx (re_pre re_pre_seg) (c4, []))"
    unfolding re_pre_def by (rule rx_Opt_skip)
  have 8: "(c4, []) \<in> set (rx re_build (c4, []))"
    unfolding re_build_def by (rule rx_Opt_skip)
  have 9: "(c4, []) \<in> set (rx Eot (c4, []))"
    unfolding step_eot by simp
  have "(c4, []) \<in> set (rx kongVersionRegexFormat (?c0, numeric_text M m p r))"
    unfolding kongVersionRegexFormat_def in_rx_Seq
    using 1 2 3 4 5 6 7 8 9 by blast
  then show ?thesis by blast
qed

lemma assemble_numeric_unique:
  assumes "num_ok M" and "num_ok m" and "num_ok p" and "r = [] \<or> num_ok r"
    and "numeric_text M m p r = assemble c"
    and "num_ok (c ''major'')" and "num_ok (c ''minor'')" and "num_ok (c ''patch'')"
    and "c ''revision'' = [] \<or> num_ok (c ''revision'')"
  shows "c ''major'' = M \<and> c ''minor'' = m \<and> c ''patch'' = p \<and> c ''revision'' = r
         \<and> c ''prerelease'' = [] \<and> c ''buildmetadata'' = []"
proof -
  define R where "R = (if c ''revision'' = [] then [] else CHR ''.'' # c ''revision'')"
  define P where "P = (if c ''prerelease'' = [] then [] else CHR ''-'' # c ''prerelease'')"
  define B where "B = (if c ''buildmetadata'' = [] then [] else CHR ''+'' # c ''buildmetadata'')"
  define T where "T = (if r = [] then [] else CHR ''.'' # r)"
  note d = num_ok_digits
  have hT: "T = [] \<or> \<not> isdigit (hd T)" by (simp add: T_def not_digit_marks)
  have hPB: "P @ B = [] \<or> \<not> isdigit (hd (P @ B))"
    by (simp add: P_def B_def not_digit_marks)
  have hRPB: "R @ P @ B = [] \<or> \<not> isdigit (hd (R @ P @ B))"
    using hPB by (simp add: R_def not_digit_marks)
  have e1: "M @ (CHR ''.'' # m @ CHR ''.'' # p @ T)
      = c ''major'' @ (CHR ''.'' # c ''minor'' @ CHR ''.'' # c ''patch'' @ R @ P @ B)"
  proof -
    have nt: "numeric_text M m p r = M @ (CHR ''.'' # m @ CHR ''.'' # p @ T)"
      by (simp add: numeric_text_def T_def)
    have as: "assemble c
        = c ''major'' @ (CHR ''.'' # c ''minor'' @ CHR ''.'' # c ''patch'' @ R @ P @ B)"
      by (simp add: assemble_def R_def P_def B_def)
    show ?thesis using assms(5) unfolding nt as .
  qed
  have s1: "M = c ''major'' \<and> CHR ''.'' # m @ CHR ''.'' # p @ T
      = CHR ''.'' # c ''minor'' @ CHR ''.'' # c ''patch'' @ R @ P @ B"
    by (rule digits_split_unique [OF _ _ _ _ e1])
      (simp_all add: d [OF assms(1)] d [OF assms(6)] not_digit_marks)
  then have e2: "m @ (CHR ''.'' # p @ T) = c ''minor'' @ (CHR ''.'' # c ''patch'' @ R @ P @ B)"
    by simp
  have s2: "m = c ''minor'' \<and> CHR ''.'' # p @ T = CHR ''.'' # c ''patch'' @ R @ P @ B"
    by (rule digits_split_unique [OF _ _ _ _ e2])
      (simp_all add: d [OF assms(2)] d [OF assms(7)] not_digit_marks)
  then have e3: "p @ T = c ''patch'' @ (R @ P @ B)" by simp
  have s3: "p = c ''patch'' \<and> T = R @ P @ B"
    by (rule digits_split_unique [OF _ _ hT hRPB e3])
      (simp_all add: d [OF assms(3)] d [OF assms(8)])
  have a4: "c ''revision'' = r \<and> c ''prerelease'' = [] \<and> c ''buildmetadata'' = []"
  proof (cases "r = []")
    case True
    then have "R @ P @ B = []" using s3 by (simp add: T_def)
    then have "R = []" "P = []" "B = []" by simp_all
    then show ?thesis
      using True unfolding R_def P_def B_def by (simp_all split: if_splits)
  next
    case False
    then have rd: "list_all isdigit r" using assms(4) d by auto
    have t: "CHR ''.'' # r = R @ P @ B" using s3 False by (simp add: T_def)
    have ne: "c ''revision'' \<noteq> []"
    proof
      assume "c ''revision'' = []"
      then have "CHR ''.'' # r = P @ B" using t by (simp add: R_def)
      then show False unfolding P_def B_def by (simp split: if_splits)
    qed
    then have cd: "list_all isdigit (c ''revision'')" using assms(9) d by auto
    have e5: "r @ [] = c ''revision'' @ (P @ B)" using t ne by (simp add: R_def)
    have "r = c ''revision'' \<and> [] = P @ B"
      by (rule digits_split_unique [OF rd cd _ hPB e5]) simp
    then have "r = c ''revision''" "P = []" "B = []" by simp_all
    then show ?thesis unfolding P_def B_def by (simp_all split: if_splits)
  qed
  show ?thesis using s1 s2 s3 a4 by simp
qed

lemma strict_numeric_fields:
  assumes "num_ok M" and "num_ok m" and "num_ok p" and "r = [] \<or> num_ok r"
  shows "\<exists>parts. FindStringSubmatch kongVersionRegexFormat (numeric_text M m p r) = Some parts
           \<and> parts ''major'' = M \<and> parts ''minor'' = m \<and> parts ''patch'' = p
           \<and> parts ''revision'' = r \<and> parts ''prerelease'' = [] \<and> parts ''buildmetadata'' = []"
proof -
  obtain c where "(c, []) \<in> set (rx kongVersionRegexFormat (\<lambda>n. [], numeric_text M m p r))"
    using strict_numeric_match [OF assms] by blast
  then obtain st rest where
    st: "rx kongVersionRegexFormat (\<lambda>n. [], numeric_text M m p r) = st # rest"
    by (cases "rx kongVersionRegexFormat (\<lambda>n. [], numeric_text M m p r)") auto
  then have f: "FindStringSubmatch kongVersionRegexFormat (numeric_text M m p r) = Some (fst st)"
    by (simp add: FindStringSubmatch_def)
  note sh = strict_sound [OF f]
  have "fst st ''major'' = M \<and> fst st ''minor'' = m \<and> fst st ''patch'' = p
      \<and> fst st ''revision'' = r \<and> fst st ''prerelease'' = [] \<and> fst st ''buildmetadata'' = []"
    by (rule assemble_numeric_unique [OF assms]) (simp_all add: sh)
  then show ?thesis using f by blast
qed

lemma Parse_numeric_text:
  assumes "num_ok M" and "num_ok m" and "num_ok p" and "r = [] \<or> num_ok r"
  shows "Parse (numeric_text M m p r) =
     (if dec M \<le> maxUint64 \<and> dec m \<le> maxUint64 \<and> dec p \<le> maxUint64
         \<and> (r = [] \<or> dec r < 2 ^ 63)
      then Inr \<lparr>Major = word_of_nat (dec M), Minor = word_of_nat (dec m),
                Patch = word_of_nat (dec p),
                Revision = (if r = [] then - 1 else word_of_nat (dec r)),
                Pre = [], Build = []\<rparr>
      else Inl ErrRange)"
proof -
  obtain parts where f: "FindStringSubmatch kongVersionRegexFormat (numeric_text M m p r) = Some parts"
    and v: "parts ''major'' = M" "parts ''minor'' = m" "parts ''patch'' = p"
       "parts ''revision'' = r" "parts ''prerelease'' = []" "parts ''buildmetadata'' = []"
    using strict_numeric_fields [OF assms] by blast
  note d = num_ok_digits
  have ne: "numeric_text M m p r \<noteq> []" using d [OF assms(1)] by (simp add: numeric_text_def)
  have pu: "ParseUint M = (if dec M \<le> maxUint64 then Inr (word_of_nat (dec M)) else Inl ErrRange)"
    "ParseUint m = (if dec m \<le> maxUint64 then Inr (word_of_nat (dec m)) else Inl ErrRange)"
    "ParseUint p = (if dec p \<le> maxUint64 then Inr (word_of_nat (dec p)) else Inl ErrRange)"
    using d [OF assms(1)] d [OF assms(2)] d [OF assms(3)] by (simp_all add: ParseUint_digits)
  have pr: "(if length r > 0 then ParseInt r else Inr (- 1)) =
      (if r = [] then Inr (- 1)
       else if dec r < 2 ^ 63 then Inr (word_of_nat (dec r)) else Inl ErrRange)"
  proof (cases "r = []")
    case True
    then show ?thesis by simp
  next
    case False
    then have "r \<noteq> []" "list_all isdigit r" using assms(4) d [of r] by auto
    then show ?thesis by (simp add: ParseInt_digits)
  qed
  have "Parse (numeric_text M m p r) =
     (case ParseUint M of Inl e \<Rightarrow> Inl e | Inr major \<Rightarrow>
     (case ParseUint m of Inl e \<Rightarrow> Inl e | Inr minor \<Rightarrow>
     (case ParseUint p of Inl e \<Rightarrow> Inl e | Inr patch \<Rightarrow>
     (case (if length r > 0 then ParseInt r else Inr (- 1)) of Inl e \<Rightarrow> Inl e | Inr revision \<Rightarrow>
        Inr \<lparr>Major = major, Minor = minor, Patch = patch, Revision = revision,
             Pre = [], Build = []\<rparr>))))"
    unfolding Parse_def using ne by (simp add: f v Let_def cong: sum.case_cong)
  then show ?thesis unfolding pu pr by simp
qed

lemma rx_no_groups: "st' \<in> set (rx r st) \<Longrightarrow> groups r = {} \<Longrightarrow> fst st' = fst st"
  using rx_reaches [of st' r st] reaches_no_groups [of "min_len r" st st'] by simp

lemma step_digits:
  assumes "st' \<in> set (rx (Grp n (Plus cls_d)) st)"
  shows "\<exists>q. q \<noteq> [] \<and> list_all isdigit q \<and> snd st = q @ snd st' \<and> fst st' = (fst st)(n := q)"
proof -
  from assms obtain c'' where c: "(c'', snd st') \<in> set (rx (Plus cls_d) (fst st, snd st))"
    "fst st' = c''(n := take (length (snd st) - length (snd st')) (snd st))"
    unfolding step_grp by auto
  from c(1) obtain q where q: "c'' = fst st" "q \<noteq> []" "snd st = q @ snd st'" "list_all isdigit q"
    unfolding in_rx_Plus_CSet by auto
  show ?thesis using q c(2) by (intro exI [of _ q]) simp
qed

lemma step_opt_digits:
  assumes "st' \<in> set (rx (Opt (Grp n (Plus cls_d))) st)"
  shows "fst st' = fst st \<or> (\<exists>q. list_all isdigit q \<and> fst st' = (fst st)(n := q))"
proof (cases "st' \<in> set (rx (Grp n (Plus cls_d)) st)")
  case True
  from step_digits [OF True] obtain q where "list_all isdigit q" "fst st' = (fst st)(n := q)"
    by blast
  then show ?thesis by blast
next
  case False
  then have "st' = st" using assms unfolding in_rx_Opt by blast
  then show ?thesis by simp
qed

lemma step_opt_dot_digits:
  assumes "st' \<in> set (rx (Opt (Seq (Lit d) (Grp n (Plus cls_d)))) st)"
  shows "fst st' = fst st \<or> (\<exists>q. list_all isdigit q \<and> fst st' = (fst st)(n := q))"
proof (cases "st' = st")
  case True
  then show ?thesis by simp
next
  case False
  then obtain m where m: "fst m = fst st" "st' \<in> set (rx (Grp n (Plus cls_d)) m)"
    using assms unfolding in_rx_Opt in_rx_Seq step_lit by blast
  from step_digits [OF m(2)] obtain q where "list_all isdigit q" "fst st' = (fst m)(n := q)"
    by blast
  then show ?thesis unfolding m(1) by blast
qed

definition numeric_groups_ok :: "captures \<Rightarrow> bool" where
  "numeric_groups_ok c =
     (list_all isdigit (c ''major'') \<and> list_all isdigit (c ''minor'')
      \<and> list_all isdigit (c ''patch'') \<and> list_all isdigit (c ''revision''))"

lemma numeric_groups_ok_step:
  assumes "numeric_groups_ok (fst st)"
    and "fst st' = fst st \<or> (\<exists>q. list_all isdigit q \<and> fst st' = (fst st)(n := q))"
  shows "numeric_groups_ok (fst st')"
  using assms(2)
proof (elim disjE exE conjE)
  assume "fst st' = fst st"
  then show ?thesis using assms(1) by simp
next
  fix q
  assume "list_all isdigit q" "fst st' = (fst st)(n := q)"
  then show ?thesis using assms(1) by (simp add: numeric_groups_ok_def)
qed

lemma numeric_groups_ok_other:
  assumes "numeric_groups_ok (fst st)"
    and "st' = st \<or> (\<exists>p. p \<noteq> [] \<and> snd st = d # p @ snd st' \<and> fst st' = (fst st)(n := p))"
    and "n \<noteq> ''major''" and "n \<noteq> ''minor''" and "n \<noteq> ''patch''" and "n \<noteq> ''revision''"
  shows "numeric_groups_ok (fst st')"
  using assms(2)
proof (elim disjE exE conjE)
  assume "st' = st"
  then show ?thesis using assms(1) by simp
next
  fix p
  assume "fst st' = (fst st)(n := p)"
  then show ?thesis using assms(1,3-6) by (simp add: numeric_groups_ok_def)
qed

lemma tolerant_digits_state:
  assumes "st' \<in> set (rx kongTolerantVersionRegexFormat (\<lambda>n. [], s))"
  shows "numeric_groups_ok (fst st')"
proof -
  from assms obtain s1 s2 s3 s4 s5 s6 s7 s8 s9 s10 where
    1: "s1 \<in> set (rx (Opt (Alt (Lit (CHR ''v'')) (Star cls_s))) (\<lambda>n. [], s))" and
    2: "s2 \<in> set (rx (Opt (Grp ''major'' (Plus cls_d))) s1)" and
    3: "s3 \<in> set (rx (Opt (Lit (CHR ''.''))) s2)" and
    4: "s4 \<in> set (rx (Opt (Grp ''minor'' (Plus cls_d))) s3)" and
    5: "s5 \<in> set (rx (Opt (Lit (CHR ''.''))) s4)" and
    6: "s6 \<in> set (rx (Opt (Grp ''patch'' (Plus cls_d))) s5)" and
    7: "s7 \<in> set (rx (Opt (Seq (Lit (CHR ''.'')) (Grp ''revision'' (Plus cls_d)))) s6)" and
    8: "s8 \<in> set (rx (re_pre re_tol_seg) s7)" and
    9: "s9 \<in> set (rx re_build s8)" and
    10: "s10 \<in> set (rx (Star cls_s) s9)" and
    11: "st' \<in> set (rx Eot s10)"
    unfolding kongTolerantVersionRegexFormat_def by (elim rx_SeqE)
  have f1: "fst s1 = (\<lambda>n. [])" using rx_no_groups [OF 1] by simp
  have f3: "fst s3 = fst s2" using rx_no_groups [OF 3] by simp
  have f5: "fst s5 = fst s4" using rx_no_groups [OF 5] by simp
  have f10: "fst s10 = fst s9" using rx_no_groups [OF 10] by simp
  have f11: "st' = s10" using 11 unfolding step_eot by simp
  have a1: "numeric_groups_ok (fst s1)" unfolding f1 by (simp add: numeric_groups_ok_def)
  have a2: "numeric_groups_ok (fst s2)"
    by (rule numeric_groups_ok_step [OF a1 step_opt_digits [OF 2]])
  have a3: "numeric_groups_ok (fst s3)" unfolding f3 by (rule a2)
  have a4: "numeric_groups_ok (fst s4)"
    by (rule numeric_groups_ok_step [OF a3 step_opt_digits [OF 4]])
  have a5: "numeric_groups_ok (fst s5)" unfolding f5 by (rule a4)
  have a6: "numeric_groups_ok (fst s6)"
    by (rule numeric_groups_ok_step [OF a5 step_opt_digits [OF 6]])
  have a7: "numeric_groups_ok (fst s7)"
    by (rule numeric_groups_ok_step [OF a6 step_opt_dot_digits [OF 7]])
  have a8: "numeric_groups_ok (fst s8)"
    by (rule numeric_groups_ok_other [OF a7 step_pre_tol [OF 8]]) simp_all
  have a9: "numeric_groups_ok (fst s9)"
    by (rule numeric_groups_ok_other [OF a8 step_build [OF 9]]) simp_all
  show ?thesis unfolding f11 f10 by (rule a9)
qed

lemma tolerant_digits:
  assumes "FindStringSubmatch kongTolerantVersionRegexFormat s = Some parts"
  shows "list_all isdigit (parts ''major'') \<and> list_all isdigit (parts ''minor'')
         \<and> list_all isdigit (parts ''patch'') \<and> list_all isdigit (parts ''revision'')"
proof -
  obtain st where "st \<in> set (rx kongTolerantVersionRegexFormat (\<lambda>n. [], s))" "fst st = parts"
    using FindStringSubmatch_SomeD [OF assms] by blast
  then show ?thesis using tolerant_digits_state [of st s] by (simp add: numeric_groups_ok_def)
qed

lemma dec_leading_zero: "dec (CHR ''0'' # x) = dec x"
proof -
  have "dec_step 0 (CHR ''0'') = 0" by (simp add: dec_step_def digit_val_def)
  then show ?thesis by (simp add: dec_def)
qed

lemma dec_dropWhile_zero: "dec (dropWhile (\<lambda>c. c \<in> set ''0'') x) = dec x"
proof (induction x)
  case Nil
  then show ?case by simp
next
  case (Cons c x)
  show ?case
  proof (cases "c = CHR ''0''")
    case True
    then show ?thesis using Cons.IH by (simp add: dec_leading_zero)
  next
    case False
    then show ?thesis by simp
  qed
qed

lemma dec_trim_zeroes: "dec (trim_zeroes x) = dec x"
proof (cases "length x > 1")
  case True
  have t: "dec (TrimLeft x ''0'') = dec x"
    unfolding TrimLeft_def by (rule dec_dropWhile_zero)
  show ?thesis
  proof (cases "TrimLeft x ''0'' = []")
    case e: True
    then have "dec x = 0" using t by (simp add: dec_def)
    then show ?thesis using True e by (simp add: trim_zeroes_def dec_zero)
  next
    case False
    then show ?thesis using True t by (simp add: trim_zeroes_def Let_def)
  qed
next
  case False
  then show ?thesis by (simp add: trim_zeroes_def)
qed

text \<open>
  The six fields that the tolerant pattern extracts from a text, when it matches: major,
  minor, patch, revision, pre-release and build metadata, each empty when absent.
\<close>

definition tolerant_fields ::
  "string \<Rightarrow> (string \<times> string \<times> string \<times> string \<times> string \<times> string) option" where
  "tolerant_fields s =
     (case FindStringSubmatch kongTolerantVersionRegexFormat s of
        None \<Rightarrow> None
      | Some parts \<Rightarrow>
          Some (parts ''major'', parts ''minor'', parts ''patch'', parts ''revision'',
                parts ''prerelease'', parts ''buildmetadata''))"

text \<open>
  What \<open>ParseTolerant\<close> makes of a major, minor or patch field in a short form:
  leading zeroes trimmed, and \<open>"0"\<close> when nothing is left.
\<close>

definition fill_zero :: "string \<Rightarrow> string" where
  "fill_zero x = (let t = trim_zeroes x in if length t = 0 then ''0'' else t)"

lemma trim_zeroes_empty_iff: "trim_zeroes x = [] \<longleftrightarrow> x = []"
  using trim_zeroes_nonempty [of x] trim_zeroes_Nil by auto

lemma fill_zero_num_ok: "list_all isdigit x \<Longrightarrow> num_ok (fill_zero x)"
  using trim_zeroes_num_ok [of x]
  by (cases "x = []") (simp_all add: fill_zero_def trim_zeroes_empty_iff trim_zeroes_Nil num_ok_def)

lemma dec_Nil: "dec [] = 0"
  by (simp add: dec_def)

lemma dec_fill_zero: "dec (fill_zero x) = dec x"
  using dec_trim_zeroes [of x]
  by (cases "x = []") (simp_all add: fill_zero_def trim_zeroes_empty_iff trim_zeroes_Nil dec_zero dec_Nil)

lemma ParseTolerant_short:
  assumes f: "FindStringSubmatch kongTolerantVersionRegexFormat s = Some parts"
    and short: "parts ''major'' = [] \<or> parts ''minor'' = [] \<or> parts ''patch'' = []"
  shows "ParseTolerant s =
     (if parts ''prerelease'' \<noteq> [] \<or> parts ''buildmetadata'' \<noteq> [] then Inl ShortFormWithSuffix
      else Parse (numeric_text (fill_zero (parts ''major'')) (fill_zero (parts ''minor''))
                    (fill_zero (parts ''patch'')) (trim_zeroes (parts ''revision''))))"
proof -
  have c: "length (trim_zeroes (parts ''patch'')) = 0 \<or> length (trim_zeroes (parts ''minor'')) = 0
      \<or> length (trim_zeroes (parts ''major'')) = 0"
    using short by (auto simp: trim_zeroes_Nil)
  show ?thesis
    unfolding ParseTolerant_def f option.case Let_def if_P [OF c]
    by (simp add: numeric_text_def fill_zero_def Let_def)
qed


lemma tolerant_fields_Some:
  assumes "tolerant_fields s = Some (M, m, p, r, pre, bld)"
  obtains parts where "FindStringSubmatch kongTolerantVersionRegexFormat s = Some parts"
    "parts ''major'' = M" "parts ''minor'' = m" "parts ''patch'' = p" "parts ''revision'' = r"
    "parts ''prerelease'' = pre" "parts ''buildmetadata'' = bld"
  using assms unfolding tolerant_fields_def by (auto split: option.splits)

lemma tolerant_fields_1_2: "tolerant_fields ''1.2'' = Some (''1'', ''2'', [], [], [], [])"
  by code_simp

lemma tolerant_fields_1_2_alpha:
  "tolerant_fields ''1.2-alpha'' = Some (''1'', ''2'', [], [], ''alpha'', [])"
  by code_simp

lemma dec_examples:
  "dec ''1'' = 1" "dec ''2'' = 2" "dec [] = 0"
  by (simp_all add: dec_def dec_step_def digit_val_def)

lemma rx_Seq_first:
  "rx a st = x # xs \<Longrightarrow> rx b x = y # ys \<Longrightarrow> \<exists>zs. rx (Seq a b) st = y # zs"
  by simp

lemma rx_Star_CSet_all:
  "list_all (in_class its) p \<Longrightarrow> \<exists>zs. rx (Star (CSet its)) (c, p) = (c, []) # zs"
proof (induction p)
  case Nil
  then show ?case by (simp add: rx_Star_CSet_Nil)
next
  case (Cons x p)
  then obtain zs where "rx (Star (CSet its)) (c, p) = (c, []) # zs" by auto
  then show ?case using Cons.prems by (simp add: rx_Star_CSet_Cons)
qed

lemma rx_Plus_CSet_all:
  "list_all (in_class its) p \<Longrightarrow> p \<noteq> [] \<Longrightarrow> \<exists>zs. rx (Plus (CSet its)) (c, p) = (c, []) # zs"
  using rx_Star_CSet_all [of its "tl p" c] by (cases p) (simp_all add: rx_Plus_CSet_Cons)

lemma rx_tolerant_tail_empty:
  "rx (Seq (Opt (Lit (CHR ''.'')))
      (Seq (Opt (Grp ''minor'' (Plus cls_d)))
      (Seq (Opt (Lit (CHR ''.'')))
      (Seq (Opt (Grp ''patch'' (Plus cls_d)))
      (Seq (Opt (Seq (Lit (CHR ''.'')) (Grp ''revision'' (Plus cls_d))))
      (Seq (re_pre re_tol_seg)
      (Seq re_build
      (Seq (Star cls_s)
       Eot)))))))) (c, []) = [(c, [])]"
  by (simp add: re_pre_def re_build_def rx_Grp rx_Plus_CSet_Nil rx_Star_CSet_Nil)

lemma tolerant_digits_only:
  assumes "D \<noteq> []" and "list_all isdigit D"
  shows "\<exists>zs. rx kongTolerantVersionRegexFormat (\<lambda>n. [], D) = ((\<lambda>n. [])(''major'' := D), []) # zs"
proof -
  let ?c0 = "\<lambda>n::string. ([]::string)"
  obtain d ds where D: "D = d # ds" using assms(1) by (cases D) auto
  have nd: "\<not> in_class [Ch (CHR 0x09), Ch (CHR 0x0A), Ch (CHR 0x0C), Ch (CHR 0x0D), Ch (CHR '' '')] d"
    "d \<noteq> CHR ''v''"
    using assms(2) unfolding D by (auto simp: in_class_def isdigit_range)
  have 1: "rx (Opt (Alt (Lit (CHR ''v'')) (Star cls_s))) (?c0, D) = (?c0, D) # [(?c0, D)]"
    unfolding D using nd by (simp add: rx_Star_CSet_Cons)
  obtain zs where p: "rx (Plus cls_d) (?c0, D) = (?c0, []) # zs"
    using rx_Plus_CSet_all [of "[Rg (CHR ''0'') (CHR ''9'')]" D ?c0] assms by auto
  have 2: "\<exists>zs. rx (Opt (Grp ''major'' (Plus cls_d))) (?c0, D) = (?c0(''major'' := D), []) # zs"
    by (simp add: rx_Grp p)
  then obtain zs2 where 2: "rx (Opt (Grp ''major'' (Plus cls_d))) (?c0, D) = (?c0(''major'' := D), []) # zs2"
    by blast
  note 3 = rx_tolerant_tail_empty [of "?c0(''major'' := D)"]
  from rx_Seq_first [OF 2 3] obtain zs3 where
    4: "rx (Seq (Opt (Grp ''major'' (Plus cls_d)))
      (Seq (Opt (Lit (CHR ''.'')))
      (Seq (Opt (Grp ''minor'' (Plus cls_d)))
      (Seq (Opt (Lit (CHR ''.'')))
      (Seq (Opt (Grp ''patch'' (Plus cls_d)))
      (Seq (Opt (Seq (Lit (CHR ''.'')) (Grp ''revision'' (Plus cls_d))))
      (Seq (re_pre re_tol_seg)
      (Seq re_build
      (Seq (Star cls_s)
       Eot))))))))) (?c0, D) = (?c0(''major'' := D), []) # zs3"
    by blast
  from rx_Seq_first [OF 1 4] show ?thesis unfolding kongTolerantVersionRegexFormat_def by blast
qed

lemma tolerant_fields_digits:
  assumes "D \<noteq> []" and "list_all isdigit D"
  shows "tolerant_fields D = Some (D, [], [], [], [], [])"
proof -
  obtain zs where "rx kongTolerantVersionRegexFormat (\<lambda>n. [], D) = ((\<lambda>n. [])(''major'' := D), []) # zs"
    using tolerant_digits_only [OF assms] by blast
  then show ?thesis by (simp add: tolerant_fields_def FindStringSubmatch_def)
qed

lemma ParseTolerant_digits:
  assumes "D \<noteq> []" and "list_all isdigit D"
  shows "ParseTolerant D =
     (if dec D \<le> maxUint64
      then Inr \<lparr>Major = word_of_nat (dec D), Minor = 0, Patch = 0, Revision = - 1,
                Pre = [], Build = []\<rparr>
      else Inl ErrRange)"
proof -
  obtain zs where z: "rx kongTolerantVersionRegexFormat (\<lambda>n. [], D) = ((\<lambda>n. [])(''major'' := D), []) # zs"
    using tolerant_digits_only [OF assms] by blast
  let ?parts = "(\<lambda>n::string. ([]::string))(''major'' := D)"
  have f: "FindStringSubmatch kongTolerantVersionRegexFormat D = Some ?parts"
    using z by (simp add: FindStringSubmatch_def)
  have short: "?parts ''major'' = [] \<or> ?parts ''minor'' = [] \<or> ?parts ''patch'' = []" by simp
  have pt: "ParseTolerant D = Parse (numeric_text (fill_zero D) (fill_zero []) (fill_zero []) (trim_zeroes []))"
    using ParseTolerant_short [OF f short] by simp
  have e: "list_all isdigit ([]::string)" by simp
  have r: "trim_zeroes [] = [] \<or> num_ok (trim_zeroes [])" by (simp add: trim_zeroes_Nil)
  note pn = Parse_numeric_text [OF fill_zero_num_ok [OF assms(2)] fill_zero_num_ok [OF e]
      fill_zero_num_ok [OF e] r, unfolded dec_fill_zero]
  show ?thesis unfolding pt pn by (simp add: trim_zeroes_Nil dec_Nil)
qed

section \<open>The claims about parsing\<close>

text \<open>
  Claim C2, as the code has it. \<open>Parse("")\<close> fails with the empty-input error and the
  strict pattern does not match the empty string. The tolerant pattern does match it,
  every field being optional, and \<open>ParseTolerant("")\<close> fills in the three numbers: it
  returns what \<open>Parse("0.0.0")\<close> returns, the version \<open>0.0.0\<close>.
\<close>

theorem empty_string_parsing:
  "Parse [] = Inl EmptyInput
   \<and> \<not> MatchString kongVersionRegexFormat []
   \<and> MatchString kongTolerantVersionRegexFormat []
   \<and> ParseTolerant [] = Parse ''0.0.0''
   \<and> Parse ''0.0.0'' = Inr \<lparr>Major = 0, Minor = 0, Patch = 0, Revision = - 1, Pre = [], Build = []\<rparr>"
proof -
  have "Parse [] = Inl EmptyInput" by (simp add: Parse_def)
  then show ?thesis
    by (simp add: ParseTolerant_empty Parse_0_0_0 tolerant_matches_empty strict_rejects_empty)
qed

text \<open>\<open>ParseTolerant("")\<close> returns a version.\<close>

theorem ParseTolerant_accepts_empty:
  "ParseTolerant [] = Inr \<lparr>Major = 0, Minor = 0, Patch = 0, Revision = - 1, Pre = [], Build = []\<rparr>"
  by (simp add: ParseTolerant_empty Parse_0_0_0)

text \<open>
  Claim C5. When \<open>Parse\<close> succeeds on a string, the string form of the version it
  returns is that string, so parsing the string form returns the same version, field
  by field.
\<close>

theorem Parse_String_roundtrip:
  assumes "Parse s = Inr v"
  shows "Version_String v = s \<and> Parse (Version_String v) = Inr v"
proof -
  from assms obtain parts where
    "FindStringSubmatch kongVersionRegexFormat s = Some parts"
    "ParseUint (parts ''major'') = Inr (Major v)"
    "ParseUint (parts ''minor'') = Inr (Minor v)"
    "ParseUint (parts ''patch'') = Inr (Patch v)"
    "(if parts ''revision'' = [] then Inr (- 1) else ParseInt (parts ''revision'')) = Inr (Revision v)"
    "parse_prerelease (if parts ''prerelease'' = [] then [] else Split (parts ''prerelease'') (CHR ''.''))
       = Inr (Pre v)"
    "parse_build (if parts ''buildmetadata'' = [] then [] else Split (parts ''buildmetadata'') (CHR ''.''))
       = Inr (Build v)"
    by (rule Parse_Inr)
  then have "Version_String v = s" by (rule Version_String_parts)
  then show ?thesis using assms by simp
qed

theorem Parse_String_roundtrip_witness:
  "Version_String
     \<lparr>Major = 1, Minor = 2, Patch = 3, Revision = 4,
      Pre = [\<lparr>VersionStr = ''alpha'', VersionNum = 0, IsNum = False\<rparr>,
             \<lparr>VersionStr = [], VersionNum = 1, IsNum = True\<rparr>],
      Build = [''b'', ''01'']\<rparr> = ''1.2.3.4-alpha.1+b.01''
   \<and> Parse (Version_String
     \<lparr>Major = 1, Minor = 2, Patch = 3, Revision = 4,
      Pre = [\<lparr>VersionStr = ''alpha'', VersionNum = 0, IsNum = False\<rparr>,
             \<lparr>VersionStr = [], VersionNum = 1, IsNum = True\<rparr>],
      Build = [''b'', ''01'']\<rparr>) = Inr
     \<lparr>Major = 1, Minor = 2, Patch = 3, Revision = 4,
      Pre = [\<lparr>VersionStr = ''alpha'', VersionNum = 0, IsNum = False\<rparr>,
             \<lparr>VersionStr = [], VersionNum = 1, IsNum = True\<rparr>],
      Build = [''b'', ''01'']\<rparr>"
  by (rule Parse_String_roundtrip [OF Parse_example])

text \<open>
  Claim C10. A version that \<open>Parse\<close> returns passes \<open>Validate\<close>: it returns no error.
  The text of every pre-release identifier and every build segment is non-empty and
  has only characters of \<open>[0-9a-zA-Z-]\<close>.
\<close>

theorem Parse_output_validates:
  assumes "Parse s = Inr v"
  shows "Validate v = None
    \<and> list_all (\<lambda>p. PRVersion_String p \<noteq> []
         \<and> list_all (in_class [Rg (CHR ''0'') (CHR ''9''), Rg (CHR ''a'') (CHR ''z''),
               Rg (CHR ''A'') (CHR ''Z''), Ch (CHR ''-'')]) (PRVersion_String p)) (Pre v)
    \<and> list_all (\<lambda>b. b \<noteq> []
         \<and> list_all (in_class [Rg (CHR ''0'') (CHR ''9''), Rg (CHR ''a'') (CHR ''z''),
               Rg (CHR ''A'') (CHR ''Z''), Ch (CHR ''-'')]) b) (Build v)"
proof -
  from assms obtain pl bl where
    p: "parse_prerelease pl = Inr (Pre v)" and b: "parse_build bl = Inr (Build v)"
    by (rule Parse_Inr)
  note pp = parse_prerelease_Inr [OF p]
  note bb = parse_build_Inr [OF b]
  have "list_all (\<lambda>x. x \<noteq> [] \<and> containsOnly x alphanum) (map PRVersion_String (Pre v))"
    using pp by simp
  then have 1: "list_all (\<lambda>p. PRVersion_String p \<noteq> []
         \<and> containsOnly (PRVersion_String p) alphanum) (Pre v)"
    by (simp add: list_all_iff)
  have 2: "list_all (\<lambda>x. x \<noteq> [] \<and> containsOnly x alphanum) (Build v)"
    using bb by simp
  have 3: "validate_pre (Pre v) = None" "validate_build (Build v) = None"
    using pp bb by blast+
  show ?thesis
    using 1 2 3 by (simp add: Validate_def containsOnly_alphanum)
qed

theorem Parse_output_validates_witness:
  "Validate
     \<lparr>Major = 1, Minor = 2, Patch = 3, Revision = 4,
      Pre = [\<lparr>VersionStr = ''alpha'', VersionNum = 0, IsNum = False\<rparr>,
             \<lparr>VersionStr = [], VersionNum = 1, IsNum = True\<rparr>],
      Build = [''b'', ''01'']\<rparr> = None"
  using Parse_output_validates [OF Parse_example] by simp

text \<open>
  Claim C3: \<open>ParseTolerant\<close> accepts a leading \<open>v\<close>, surrounding whitespace, and both
  together, with the result of \<open>Parse\<close> on the rest. The code takes \<open>v1.2.3\<close> and
  \<open>1.2.3\<close> between spaces, but not a space followed by \<open>v1.2.3\<close>: the pattern starts
  with \<open>(?:v|\s*)?\<close>, either a \<open>v\<close> or whitespace, and rejects the text.
\<close>

theorem ParseTolerant_space_then_v:
  "Parse ''1.2.3''
     = Inr \<lparr>Major = 1, Minor = 2, Patch = 3, Revision = - 1, Pre = [], Build = []\<rparr>
   \<and> ParseTolerant ''v1.2.3'' = Parse ''1.2.3''
   \<and> ParseTolerant '' 1.2.3 '' = Parse ''1.2.3''
   \<and> ParseTolerant ''v1.2.3 '' = Parse ''1.2.3''
   \<and> \<not> MatchString kongTolerantVersionRegexFormat '' v1.2.3''
   \<and> ParseTolerant '' v1.2.3'' = Inl TolerantGrammarMismatch"
proof -
  have 1: "ParseTolerant ''v1.2.3'' = Parse ''1.2.3''" by code_simp
  have 2: "ParseTolerant '' 1.2.3 '' = Parse ''1.2.3''" by code_simp
  have 3: "ParseTolerant ''v1.2.3 '' = Parse ''1.2.3''" by code_simp
  have 4: "\<not> MatchString kongTolerantVersionRegexFormat '' v1.2.3''" by code_simp
  have 5: "ParseTolerant '' v1.2.3'' = Inl TolerantGrammarMismatch" by code_simp
  show ?thesis using Parse_1_2_3 1 2 3 4 5 by simp
qed

text \<open>
  Claim C8, as the code has it. When the tolerant pattern matches and at least one of
  major, minor and patch is absent: with a pre-release or build suffix \<open>ParseTolerant\<close>
  fails with the short-form error; with none it trims the zeroes, fills each absent field
  with \<open>"0"\<close> and parses the text so built. That succeeds, with the numbers read (an
  absent one being \<open>0\<close>), the revision when there is one and no pre-release or build,
  unless a number is out of range (major, minor or patch above \<open>2^64 - 1\<close>, revision
  above \<open>2^63 - 1\<close>): then it fails with the range error. \<open>ParseTolerant("1.2")\<close> is
  \<open>Parse("1.2.0")\<close> and \<open>ParseTolerant("1.2-alpha")\<close> fails.
\<close>

theorem short_form_rule:
  assumes "tolerant_fields s = Some (M, m, p, r, pre, bld)"
    and "M = [] \<or> m = [] \<or> p = []"
  shows "(pre \<noteq> [] \<or> bld \<noteq> [] \<longrightarrow> ParseTolerant s = Inl ShortFormWithSuffix)
     \<and> (pre = [] \<and> bld = [] \<longrightarrow>
          ParseTolerant s
            = Parse (numeric_text (fill_zero M) (fill_zero m) (fill_zero p) (trim_zeroes r))
        \<and> ParseTolerant s =
            (if dec M \<le> maxUint64 \<and> dec m \<le> maxUint64 \<and> dec p \<le> maxUint64
                \<and> (r = [] \<or> dec r < 2 ^ 63)
             then Inr \<lparr>Major = word_of_nat (dec M), Minor = word_of_nat (dec m),
                       Patch = word_of_nat (dec p),
                       Revision = (if r = [] then - 1 else word_of_nat (dec r)),
                       Pre = [], Build = []\<rparr>
             else Inl ErrRange))
     \<and> ParseTolerant ''1.2'' = Parse ''1.2.0''
     \<and> ParseTolerant ''1.2-alpha'' = Inl ShortFormWithSuffix"
proof -
  from assms(1) obtain parts where
    f: "FindStringSubmatch kongTolerantVersionRegexFormat s = Some parts" and
    v: "parts ''major'' = M" "parts ''minor'' = m" "parts ''patch'' = p" "parts ''revision'' = r"
       "parts ''prerelease'' = pre" "parts ''buildmetadata'' = bld"
    by (rule tolerant_fields_Some)
  have short: "parts ''major'' = [] \<or> parts ''minor'' = [] \<or> parts ''patch'' = []"
    using assms(2) v by simp
  note pt = ParseTolerant_short [OF f short, unfolded v]
  have d: "list_all isdigit M" "list_all isdigit m" "list_all isdigit p" "list_all isdigit r"
    using tolerant_digits [OF f] v by simp_all
  have r: "trim_zeroes r = [] \<or> num_ok (trim_zeroes r)"
    using trim_zeroes_num_ok [OF _ d(4)] by (cases "r = []") (simp_all add: trim_zeroes_Nil)
  note pn = Parse_numeric_text [OF fill_zero_num_ok [OF d(1)] fill_zero_num_ok [OF d(2)]
      fill_zero_num_ok [OF d(3)] r, unfolded dec_fill_zero dec_trim_zeroes trim_zeroes_empty_iff]
  have 1: "pre \<noteq> [] \<or> bld \<noteq> [] \<longrightarrow> ParseTolerant s = Inl ShortFormWithSuffix"
    using pt by simp
  have 2: "pre = [] \<and> bld = [] \<longrightarrow>
          ParseTolerant s
            = Parse (numeric_text (fill_zero M) (fill_zero m) (fill_zero p) (trim_zeroes r))"
    using pt by simp
  have 3: "pre = [] \<and> bld = [] \<longrightarrow> ParseTolerant s =
            (if dec M \<le> maxUint64 \<and> dec m \<le> maxUint64 \<and> dec p \<le> maxUint64
                \<and> (r = [] \<or> dec r < 2 ^ 63)
             then Inr \<lparr>Major = word_of_nat (dec M), Minor = word_of_nat (dec m),
                       Patch = word_of_nat (dec p),
                       Revision = (if r = [] then - 1 else word_of_nat (dec r)),
                       Pre = [], Build = []\<rparr>
             else Inl ErrRange)"
    using 2 pn by simp
  have 4: "ParseTolerant ''1.2'' = Parse ''1.2.0''" by code_simp
  have 5: "ParseTolerant ''1.2-alpha'' = Inl ShortFormWithSuffix" by code_simp
  show ?thesis using 1 2 3 4 5 by blast
qed

theorem short_form_rule_witness:
  "ParseTolerant ''1.2''
     = Inr \<lparr>Major = 1, Minor = 2, Patch = 0, Revision = - 1, Pre = [], Build = []\<rparr>
   \<and> ParseTolerant ''1.2-alpha'' = Inl ShortFormWithSuffix"
proof -
  have s: "''1'' = [] \<or> ''2'' = [] \<or> ([]::string) = []" by simp
  note a = short_form_rule [OF tolerant_fields_1_2 s]
  note b = short_form_rule [OF tolerant_fields_1_2_alpha s]
  from a have "ParseTolerant ''1.2'' =
      (if dec ''1'' \<le> maxUint64 \<and> dec ''2'' \<le> maxUint64 \<and> dec [] \<le> maxUint64
          \<and> (([]::string) = [] \<or> dec [] < 2 ^ 63)
       then Inr \<lparr>Major = word_of_nat (dec ''1''), Minor = word_of_nat (dec ''2''),
                 Patch = word_of_nat (dec []),
                 Revision = (if ([]::string) = [] then - 1 else word_of_nat (dec [])),
                 Pre = [], Build = []\<rparr>
       else Inl ErrRange)"
    by blast
  then have 1: "ParseTolerant ''1.2''
     = Inr \<lparr>Major = 1, Minor = 2, Patch = 0, Revision = - 1, Pre = [], Build = []\<rparr>"
    by (simp add: dec_examples maxUint64_def)
  from b have 2: "ParseTolerant ''1.2-alpha'' = Inl ShortFormWithSuffix" by blast
  show ?thesis using 1 2 by simp
qed

text \<open>
  A short form with no suffix that does not succeed: \<open>2^64\<close> as the major number alone.
\<close>

theorem short_form_overflow:
  "tolerant_fields ''18446744073709551616'' = Some (''18446744073709551616'', [], [], [], [], [])
   \<and> ParseTolerant ''18446744073709551616'' = Inl ErrRange"
proof -
  have d: "''18446744073709551616'' \<noteq> []" "list_all isdigit ''18446744073709551616''"
    by (simp_all add: isdigit_def)
  have v: "dec ''18446744073709551616'' = 18446744073709551616"
    by (simp add: dec_def dec_step_def digit_val_def)
  show ?thesis
    using tolerant_fields_digits [OF d] ParseTolerant_digits [OF d]
    by (simp add: v maxUint64_def)
qed

end
